theory Spec2Isabelle
  imports Complex_Main "HOL-Library.Word"
begin

unbundle bit_operations_syntax

section \<open>The k-minimum-values sketch of kmh.h\<close>

text \<open>
  The development embeds the header \<^verbatim>\<open>kmh.h\<close> (the second document of
  \<^verbatim>\<open>src/src/bench.c\<close>).  Conventions of the embedding:

  \<^item> \<^verbatim>\<open>uint32_t\<close> is \<open>32 word\<close>, so \<open>+\<close>, \<open>-\<close> and \<open>*\<close> wrap around as in C;
  \<^item> the array behind the \<^verbatim>\<open>hashes\<close> pointer is a list whose length is the number of
    \<^verbatim>\<open>uint32_t\<close> cells of the allocation (\<^verbatim>\<open>MAX_K\<close> for a pool slot, \<^verbatim>\<open>k\<close> for a
    \<^verbatim>\<open>malloc\<close>ed sketch); cells at index \<^verbatim>\<open>count\<close> and above hold stale values;
  \<^item> a function returns \<open>None\<close> where the C program has undefined behaviour: an array
    access outside the allocation, or a division by zero;
  \<^item> loop counters that the loop guard keeps from wrapping are natural numbers; the
    \<^verbatim>\<open>int\<close> indices of \<^verbatim>\<open>kmh_merge\<close> are integers obtained by the signed reading of the
    32-bit value;
  \<^item> a \<^verbatim>\<open>double\<close> is the real number it stands for, or infinity, or not-a-number;
    rounding to 53 bits is not modelled;
  \<^item> the target is an LP64 little-endian machine: a pointer occupies 8 bytes,
    \<^verbatim>\<open>sizeof(kvalue_minhash_t)\<close> is 24, and \<^verbatim>\<open>memcpy\<close> of a \<^verbatim>\<open>uint32_t\<close> stores the least
    significant byte first.
\<close>

type_synonym u8 = "8 word"
type_synonym u32 = "32 word"
type_synonym u64 = "64 word"

subsection \<open>xxHash32 of one 32-bit input\<close>

definition XXH_PRIME32_1 :: u32 where "XXH_PRIME32_1 = 0x9E3779B1"
definition XXH_PRIME32_2 :: u32 where "XXH_PRIME32_2 = 0x85EBCA77"
definition XXH_PRIME32_3 :: u32 where "XXH_PRIME32_3 = 0xC2B2AE3D"
definition XXH_PRIME32_4 :: u32 where "XXH_PRIME32_4 = 0x27D4EB2F"
definition XXH_PRIME32_5 :: u32 where "XXH_PRIME32_5 = 0x165667B1"

definition xxh32_rotl :: "u32 \<Rightarrow> nat \<Rightarrow> u32" where
  "xxh32_rotl x r = push_bit r x OR drop_bit (32 - r) x"

definition xxh32_hash :: "u32 \<Rightarrow> u32 \<Rightarrow> u32" where
  "xxh32_hash input sd =
     (let h0 = sd + XXH_PRIME32_5 + 4;
          h1 = h0 + input * XXH_PRIME32_3;
          h2 = xxh32_rotl h1 17 * XXH_PRIME32_4;
          h3 = h2 XOR drop_bit 15 h2;
          h4 = h3 * XXH_PRIME32_2;
          h5 = h4 XOR drop_bit 13 h4;
          h6 = h5 * XXH_PRIME32_3
      in h6 XOR drop_bit 16 h6)"

subsection \<open>The sketch\<close>

definition MAX_INSTANCES :: nat where "MAX_INSTANCES = 4"
definition MAX_K :: nat where "MAX_K = 1024"
definition MAX_SERIALIZE_BUFFERS :: nat where "MAX_SERIALIZE_BUFFERS = 4"

record kvalue_minhash_t =
  k :: u32
  count :: u32
  space_size :: u32
  seed :: u32
  hashes :: "u32 list"

text \<open>Array cells: a read or a write outside the allocation is undefined behaviour.\<close>

definition rd :: "'a list \<Rightarrow> nat \<Rightarrow> 'a option" where
  "rd xs i = (if i < length xs then Some (xs ! i) else None)"

definition wr :: "'a list \<Rightarrow> nat \<Rightarrow> 'a \<Rightarrow> 'a list option" where
  "wr xs i v = (if i < length xs then Some (xs[i := v]) else None)"

subsection \<open>Doubles\<close>

datatype double = Dbl real | DInf | DNaN

text \<open>Conversion of an unsigned 32-bit value, which is exact.\<close>

definition dbl_of_u32 :: "u32 \<Rightarrow> real" where
  "dbl_of_u32 w = real (unat w)"

text \<open>Division of a non-negative finite numerator, with the IEEE results for a zero divisor.\<close>

definition ddiv :: "real \<Rightarrow> real \<Rightarrow> double" where
  "ddiv x y = (if y = 0 then (if x = 0 then DNaN else DInf) else Dbl (x / y))"

subsection \<open>Cardinality estimation\<close>

definition kmh_cardinality :: "kvalue_minhash_t \<Rightarrow> double option" where
  "kmh_cardinality kmh =
     (if count kmh = 0 then Some (Dbl 0)
      else if count kmh < k kmh then Some (Dbl (dbl_of_u32 (count kmh)))
      else (case rd (hashes kmh) 0 of
              None \<Rightarrow> None
            | Some h0 \<Rightarrow>
                Some (ddiv (dbl_of_u32 (space_size kmh) * dbl_of_u32 (k kmh - 1))
                           (dbl_of_u32 (h0 + 1)))))"

subsection \<open>Pooled and heap-allocated sketches\<close>

text \<open>
  A sketch lives either in one of the \<^verbatim>\<open>MAX_INSTANCES\<close> slots of the static
  \<^verbatim>\<open>kmh_pool\<close> or in a block obtained from \<^verbatim>\<open>malloc\<close>.  The world holds the claim
  markers and contents of the slots, the blocks handed out so far, the number of bytes
  the allocator can still provide (\<^verbatim>\<open>malloc\<close> returns \<^verbatim>\<open>NULL\<close> beyond it), the
  indeterminate contents of fresh memory, and what the serialization buffers need: their
  claim markers, the addresses of the pooled buffers and the address the next
  \<^verbatim>\<open>malloc\<close> returns.  The compare-and-swap on a claim marker is the sequential one: it
  succeeds exactly when the marker is clear.
\<close>

datatype kmh_ptr = PoolSlot nat | HeapBlock nat

record kmh_world =
  in_use :: "bool list"
  pool :: "kvalue_minhash_t list"
  heap :: "kvalue_minhash_t option list"
  heap_left :: nat
  junk :: "nat \<Rightarrow> u32"
  busy :: "bool list"
  buffer_addr :: "nat \<Rightarrow> u64"
  malloc_addr :: u64

definition sizeof_kvalue_minhash_t :: nat where
  "sizeof_kvalue_minhash_t = 24"

definition sizeof_uint32_t :: nat where
  "sizeof_uint32_t = 4"

text \<open>The scan over the claim markers: the first index whose marker is clear.\<close>

fun scan_free :: "bool list \<Rightarrow> nat \<Rightarrow> nat option" where
  "scan_free [] i = None"
| "scan_free (b # bs) i = (if \<not> b then Some i else scan_free bs (Suc i))"

definition deref :: "kmh_world \<Rightarrow> kmh_ptr \<Rightarrow> kvalue_minhash_t option" where
  "deref w p =
     (case p of
        PoolSlot i \<Rightarrow>
          (if i < length (pool w) \<and> i < length (in_use w) \<and> in_use w ! i
           then Some (pool w ! i) else None)
      | HeapBlock n \<Rightarrow> (if n < length (heap w) then heap w ! n else None))"

definition store :: "kmh_world \<Rightarrow> kmh_ptr \<Rightarrow> kvalue_minhash_t \<Rightarrow> kmh_world" where
  "store w p v =
     (case p of
        PoolSlot i \<Rightarrow> w\<lparr>pool := (pool w)[i := v]\<rparr>
      | HeapBlock n \<Rightarrow> w\<lparr>heap := (heap w)[n := Some v]\<rparr>)"

definition kmh_init :: "kmh_world \<Rightarrow> u32 \<Rightarrow> u32 \<Rightarrow> u32 \<Rightarrow> kmh_ptr option \<times> kmh_world" where
  "kmh_init w kk sp sd =
     (case (if unat kk \<le> MAX_K then scan_free (take MAX_INSTANCES (in_use w)) 0 else None) of
        Some i \<Rightarrow>
          (Some (PoolSlot i),
           w\<lparr>in_use := (in_use w)[i := True],
             pool := (pool w)[i := \<lparr>k = kk, count = 0, space_size = sp, seed = sd,
                                    hashes = hashes (pool w ! i)\<rparr>]\<rparr>)
      | None \<Rightarrow>
          (let bytes = sizeof_kvalue_minhash_t + unat kk * sizeof_uint32_t in
           if bytes \<le> heap_left w
           then (Some (HeapBlock (length (heap w))),
                 w\<lparr>heap := heap w @ [Some \<lparr>k = kk, count = 0, space_size = sp, seed = sd,
                                             hashes = map (junk w) [0..<unat kk]\<rparr>],
                   heap_left := heap_left w - bytes\<rparr>)
           else (None, w)))"

subsection \<open>Adding a value\<close>

text \<open>The duplicate scan \<^verbatim>\<open>for (j = 0; j < count; j++) if (hashes[j] == hash) return;\<close>\<close>

function find_dup :: "u32 list \<Rightarrow> nat \<Rightarrow> u32 \<Rightarrow> nat \<Rightarrow> bool option" where
  "find_dup hs cnt hash j =
     (if j < cnt then
        (case rd hs j of
           None \<Rightarrow> None
         | Some x \<Rightarrow> if x = hash then Some True else find_dup hs cnt hash (Suc j))
      else Some False)"
  by pat_completeness auto
termination
  by (relation "measure (\<lambda>(hs, cnt, hash, j). cnt - j)") auto

declare find_dup.simps [simp del]

text \<open>
  The insertion loop
  \<^verbatim>\<open>while (i > 0 && hashes[i-1] < hash) { hashes[i] = hashes[i-1]; i--; } hashes[i] = hash;\<close>
\<close>

fun insert_loop :: "u32 list \<Rightarrow> nat \<Rightarrow> u32 \<Rightarrow> u32 list option" where
  "insert_loop hs 0 hash = wr hs 0 hash"
| "insert_loop hs (Suc i) hash =
     (case rd hs i of
        None \<Rightarrow> None
      | Some x \<Rightarrow>
          if x < hash then
            (case wr hs (Suc i) x of
               None \<Rightarrow> None
             | Some hs' \<Rightarrow> insert_loop hs' i hash)
          else wr hs (Suc i) hash)"

text \<open>\<^verbatim>\<open>memmove(&hashes[0], &hashes[1], n * sizeof(uint32_t))\<close>\<close>

definition memmove_left :: "u32 list \<Rightarrow> nat \<Rightarrow> u32 list option" where
  "memmove_left hs n =
     (if Suc n \<le> length hs then Some (take n (drop 1 hs) @ drop n hs) else None)"

definition kmh_add :: "kvalue_minhash_t \<Rightarrow> u32 \<Rightarrow> kvalue_minhash_t option" where
  "kmh_add kmh v =
     (if space_size kmh = 0 then None
      else
        let hash = xxh32_hash v (seed kmh) mod space_size kmh in
        (case find_dup (hashes kmh) (unat (count kmh)) hash 0 of
           None \<Rightarrow> None
         | Some True \<Rightarrow> Some kmh
         | Some False \<Rightarrow>
             if count kmh < k kmh then
               (case insert_loop (hashes kmh) (unat (count kmh)) hash of
                  None \<Rightarrow> None
                | Some hs \<Rightarrow> Some (kmh\<lparr>hashes := hs, count := count kmh + 1\<rparr>))
             else
               (case rd (hashes kmh) 0 of
                  None \<Rightarrow> None
                | Some h0 \<Rightarrow>
                    if hash \<ge> h0 then Some kmh
                    else
                      (case memmove_left (hashes kmh) (unat (k kmh - 1)) of
                         None \<Rightarrow> None
                       | Some hs \<Rightarrow>
                           (case insert_loop hs (unat (k kmh - 1)) hash of
                              None \<Rightarrow> None
                            | Some hs' \<Rightarrow> Some (kmh\<lparr>hashes := hs'\<rparr>))))))"

text \<open>A sequence of \<^verbatim>\<open>kmh_add\<close> calls on one sketch.\<close>

fun kmh_add_all :: "kvalue_minhash_t \<Rightarrow> u32 list \<Rightarrow> kvalue_minhash_t option" where
  "kmh_add_all kmh [] = Some kmh"
| "kmh_add_all kmh (v # vs) =
     (case kmh_add kmh v of None \<Rightarrow> None | Some kmh' \<Rightarrow> kmh_add_all kmh' vs)"

subsection \<open>Merging\<close>

text \<open>\<^verbatim>\<open>result->hashes[result->count++] = hash;\<close>\<close>

definition push_hash :: "kvalue_minhash_t \<Rightarrow> u32 \<Rightarrow> kvalue_minhash_t option" where
  "push_hash res hash =
     (case wr (hashes res) (unat (count res)) hash of
        None \<Rightarrow> None
      | Some hs \<Rightarrow> Some (res\<lparr>hashes := hs, count := count res + 1\<rparr>))"

text \<open>One iteration of the merge loop: the hash taken and the new indices.\<close>

definition merge_step :: "u32 list \<Rightarrow> u32 list \<Rightarrow> int \<Rightarrow> int \<Rightarrow> (u32 \<times> int \<times> int) option" where
  "merge_step ah bh i j =
     (if i < 0 then
        (case rd bh (nat j) of None \<Rightarrow> None | Some y \<Rightarrow> Some (y, i, j - 1))
      else if j < 0 then
        (case rd ah (nat i) of None \<Rightarrow> None | Some x \<Rightarrow> Some (x, i - 1, j))
      else
        (case rd ah (nat i) of
           None \<Rightarrow> None
         | Some x \<Rightarrow>
             (case rd bh (nat j) of
                None \<Rightarrow> None
              | Some y \<Rightarrow>
                  if x < y then Some (x, i - 1, j)
                  else if x > y then Some (y, i, j - 1)
                  else Some (x, i - 1, j - 1))))"

function merge_loop ::
  "u32 list \<Rightarrow> u32 list \<Rightarrow> kvalue_minhash_t \<Rightarrow> int \<Rightarrow> int \<Rightarrow> kvalue_minhash_t option" where
  "merge_loop ah bh res i j =
     (if count res < k res \<and> (0 \<le> i \<or> 0 \<le> j) then
        (case merge_step ah bh i j of
           None \<Rightarrow> None
         | Some (hash, i', j') \<Rightarrow>
             (case push_hash res hash of
                None \<Rightarrow> None
              | Some res' \<Rightarrow> merge_loop ah bh res' i' j'))
      else Some res)"
  by pat_completeness auto
termination
  by (relation "measure (\<lambda>(ah, bh, res, i, j). nat (i + 1) + nat (j + 1))")
     (auto simp: merge_step_def split: option.splits if_splits)

declare merge_loop.simps [simp del]

text \<open>
  The reversal
  \<^verbatim>\<open>for (idx = 0; idx < count / 2; idx++) swap(hashes[idx], hashes[count - 1 - idx]);\<close>
\<close>

function reverse_loop :: "u32 list \<Rightarrow> nat \<Rightarrow> nat \<Rightarrow> u32 list option" where
  "reverse_loop hs cnt idx =
     (if idx < cnt div 2 then
        (case rd hs idx of
           None \<Rightarrow> None
         | Some temp \<Rightarrow>
             (case rd hs (cnt - 1 - idx) of
                None \<Rightarrow> None
              | Some other \<Rightarrow>
                  reverse_loop (hs[idx := other, cnt - 1 - idx := temp]) cnt (Suc idx)))
      else Some hs)"
  by pat_completeness auto
termination
  by (relation "measure (\<lambda>(hs, cnt, idx). cnt div 2 - idx)") auto

declare reverse_loop.simps [simp del]

definition incompatible :: "kvalue_minhash_t \<Rightarrow> kvalue_minhash_t \<Rightarrow> bool" where
  "incompatible a b \<longleftrightarrow> k a \<noteq> k b \<or> space_size a \<noteq> space_size b \<or> seed a \<noteq> seed b"

text \<open>
  \<^verbatim>\<open>kmh_merge\<close> takes two pointers and returns the pointer to the result, or \<^verbatim>\<open>NULL\<close>;
  the inputs are read through their pointers after the result has been allocated.
\<close>

definition kmh_merge ::
  "kmh_world \<Rightarrow> kmh_ptr \<Rightarrow> kmh_ptr \<Rightarrow> (kmh_ptr option \<times> kmh_world) option" where
  "kmh_merge w pa pb =
     (case (deref w pa, deref w pb) of
        (Some a0, Some b0) \<Rightarrow>
          if incompatible a0 b0 then Some (None, w)
          else
            (case kmh_init w (k a0) (space_size a0) (seed a0) of
               (None, w') \<Rightarrow> Some (None, w')
             | (Some r, w') \<Rightarrow>
                 (case (deref w' pa, deref w' pb, deref w' r) of
                    (Some a, Some b, Some res) \<Rightarrow>
                      (case merge_loop (hashes a) (hashes b) res
                              (sint (count a - 1)) (sint (count b - 1)) of
                         None \<Rightarrow> None
                       | Some res' \<Rightarrow>
                           (case reverse_loop (hashes res') (unat (count res')) 0 of
                              None \<Rightarrow> None
                            | Some hs \<Rightarrow> Some (Some r, store w' r (res'\<lparr>hashes := hs\<rparr>))))
                  | _ \<Rightarrow> None))
      | _ \<Rightarrow> None)"

subsection \<open>Jaccard distance\<close>

function distance_loop ::
  "u32 list \<Rightarrow> u32 list \<Rightarrow> nat \<Rightarrow> nat \<Rightarrow> nat \<Rightarrow> nat \<Rightarrow> nat \<Rightarrow> nat \<Rightarrow> nat \<Rightarrow> (nat \<times> nat) option"
  where
  "distance_loop ah bh ca cb ka i j matches compared =
     (if i < ca \<and> j < cb \<and> compared < ka then
        (case rd ah i of
           None \<Rightarrow> None
         | Some x \<Rightarrow>
             (case rd bh j of
                None \<Rightarrow> None
              | Some y \<Rightarrow>
                  if x = y then
                    distance_loop ah bh ca cb ka (Suc i) (Suc j) (Suc matches) (Suc compared)
                  else if x > y then
                    distance_loop ah bh ca cb ka (Suc i) j matches (Suc compared)
                  else
                    distance_loop ah bh ca cb ka i (Suc j) matches (Suc compared)))
      else Some (matches, compared))"
  by pat_completeness auto
termination
  by (relation "measure (\<lambda>(ah, bh, ca, cb, ka, i, j, matches, compared). ka - compared)") auto

declare distance_loop.simps [simp del]

definition kmh_distance :: "kvalue_minhash_t \<Rightarrow> kvalue_minhash_t \<Rightarrow> double option" where
  "kmh_distance a b =
     (if incompatible a b then Some (Dbl (- 1))
      else
        (case distance_loop (hashes a) (hashes b) (unat (count a)) (unat (count b))
                (unat (k a)) 0 0 0 0 of
           None \<Rightarrow> None
         | Some (matches, compared) \<Rightarrow>
             Some (if compared > 0 then Dbl (1 - real matches / real compared) else Dbl 1)))"

subsection \<open>Bytes\<close>

text \<open>\<^verbatim>\<open>memcpy\<close> of a \<^verbatim>\<open>uint32_t\<close> or of a pointer to and from a byte buffer.\<close>

definition le32 :: "u32 \<Rightarrow> u8 list" where
  "le32 w = [ucast w, ucast (drop_bit 8 w), ucast (drop_bit 16 w), ucast (drop_bit 24 w)]"

definition le64 :: "u64 \<Rightarrow> u8 list" where
  "le64 w = [ucast w, ucast (drop_bit 8 w), ucast (drop_bit 16 w), ucast (drop_bit 24 w),
             ucast (drop_bit 32 w), ucast (drop_bit 40 w), ucast (drop_bit 48 w),
             ucast (drop_bit 56 w)]"

definition word_le32 :: "u8 \<Rightarrow> u8 \<Rightarrow> u8 \<Rightarrow> u8 \<Rightarrow> u32" where
  "word_le32 b0 b1 b2 b3 =
     ucast b0 OR push_bit 8 (ucast b1) OR push_bit 16 (ucast b2) OR push_bit 24 (ucast b3)"

text \<open>Reading a \<^verbatim>\<open>uint32_t\<close> at a byte offset; outside the buffer it is undefined.\<close>

definition rd32 :: "u8 list \<Rightarrow> nat \<Rightarrow> u32 option" where
  "rd32 buf off =
     (if off + 4 \<le> length buf
      then Some (word_le32 (buf ! off) (buf ! (off + 1)) (buf ! (off + 2)) (buf ! (off + 3)))
      else None)"

text \<open>Reading \<open>n\<close> consecutive \<^verbatim>\<open>uint32_t\<close> cells starting at a byte offset.\<close>

fun rd32s :: "u8 list \<Rightarrow> nat \<Rightarrow> nat \<Rightarrow> u32 list option" where
  "rd32s buf off 0 = Some []"
| "rd32s buf off (Suc n) =
     (case rd32 buf off of
        None \<Rightarrow> None
      | Some x \<Rightarrow> (case rd32s buf (off + 4) n of None \<Rightarrow> None | Some xs \<Rightarrow> Some (x # xs)))"

subsection \<open>Serialization buffers\<close>

definition buffer_size :: nat where
  "buffer_size = (MAX_K + 5) * sizeof_uint32_t"

definition sizeof_int :: nat where
  "sizeof_int = 4"

datatype buf_ptr = PoolBuf nat | HeapBuf u64

text \<open>
  The scan of \<^verbatim>\<open>kmh_get_buffer\<close>: a free buffer is claimed, kept when the request fits
  and given back otherwise.
\<close>

fun scan_buffers :: "bool list \<Rightarrow> nat \<Rightarrow> nat \<Rightarrow> nat option" where
  "scan_buffers [] i needed_size = None"
| "scan_buffers (b # bs) i needed_size =
     (if \<not> b \<and> needed_size \<le> buffer_size then Some i
      else scan_buffers bs (Suc i) needed_size)"

definition kmh_get_buffer :: "kmh_world \<Rightarrow> nat \<Rightarrow> buf_ptr option \<times> kmh_world" where
  "kmh_get_buffer w needed_size =
     (case scan_buffers (take MAX_SERIALIZE_BUFFERS (busy w)) 0 needed_size of
        Some i \<Rightarrow> (Some (PoolBuf i), w\<lparr>busy := (busy w)[i := True]\<rparr>)
      | None \<Rightarrow>
          (let bytes = needed_size + sizeof_int in
           if bytes \<le> heap_left w
           then (Some (HeapBuf (malloc_addr w + of_nat sizeof_int)),
                 w\<lparr>heap_left := heap_left w - bytes,
                   malloc_addr := malloc_addr w + of_nat bytes\<rparr>)
           else (None, w)))"

definition buf_address :: "kmh_world \<Rightarrow> buf_ptr \<Rightarrow> u64" where
  "buf_address w b = (case b of PoolBuf i \<Rightarrow> buffer_addr w i | HeapBuf a \<Rightarrow> a)"

definition buf_capacity :: "buf_ptr \<Rightarrow> nat \<Rightarrow> nat" where
  "buf_capacity b needed_size = (case b of PoolBuf i \<Rightarrow> buffer_size | HeapBuf a \<Rightarrow> needed_size)"

subsection \<open>Serialization\<close>

text \<open>
  \<^verbatim>\<open>kmh_serialize\<close> copies the struct (the four fields and the \<^verbatim>\<open>hashes\<close> pointer,
  which it then redirects to \<^verbatim>\<open>buf + struct_size\<close>) and after it \<^verbatim>\<open>hash_size\<close> bytes of
  the array.  The result is the returned size, the buffer and the bytes
  \<^verbatim>\<open>buf[0 .. total_size)\<close>; \<open>Some (None, _)\<close> is the return value 0.
\<close>

definition kmh_serialize ::
  "kmh_world \<Rightarrow> kvalue_minhash_t \<Rightarrow> ((u32 \<times> buf_ptr \<times> u8 list) option \<times> kmh_world) option" where
  "kmh_serialize w kmh =
     (let struct_size = (of_nat sizeof_kvalue_minhash_t :: u32);
          hash_size = count kmh * of_nat sizeof_uint32_t;
          total_size = struct_size + hash_size
      in case kmh_get_buffer w (unat total_size) of
           (None, w') \<Rightarrow> Some (None, w')
         | (Some buf, w') \<Rightarrow>
             if unat struct_size + unat hash_size \<le> buf_capacity buf (unat total_size)
                \<and> unat hash_size \<le> length (hashes kmh) * sizeof_uint32_t
             then
               Some (Some (total_size, buf,
                       le32 (k kmh) @ le32 (count kmh) @ le32 (space_size kmh) @ le32 (seed kmh)
                       @ le64 (buf_address w' buf + of_nat (unat struct_size))
                       @ take (unat hash_size) (concat (map le32 (hashes kmh)))), w')
             else None)"

text \<open>
  \<^verbatim>\<open>kmh_deserialize\<close> reads the four fields through a \<^verbatim>\<open>kvalue_minhash_t\<close> pointer to
  the buffer and copies \<^verbatim>\<open>count\<close> cells from offset \<^verbatim>\<open>sizeof(kvalue_minhash_t)\<close>.
\<close>

definition kmh_deserialize ::
  "kmh_world \<Rightarrow> u8 list \<Rightarrow> u32 \<Rightarrow> (kmh_ptr option \<times> kmh_world) option" where
  "kmh_deserialize w buf buf_size =
     (if unat buf_size < sizeof_kvalue_minhash_t then Some (None, w)
      else
        (case (rd32 buf 0, rd32 buf 4, rd32 buf 8, rd32 buf 12) of
           (Some kk, Some cnt, Some sp, Some sd) \<Rightarrow>
             if cnt > kk \<or> unat kk > MAX_K * 10
                \<or> unat buf_size < sizeof_kvalue_minhash_t + unat cnt * sizeof_uint32_t
             then Some (None, w)
             else
               (case kmh_init w kk sp sd of
                  (None, w') \<Rightarrow> Some (None, w')
                | (Some p, w') \<Rightarrow>
                    (case deref w' p of
                       None \<Rightarrow> None
                     | Some kmh \<Rightarrow>
                         if cnt > 0 then
                           (case rd32s buf sizeof_kvalue_minhash_t (unat cnt) of
                              None \<Rightarrow> None
                            | Some xs \<Rightarrow>
                                if unat cnt \<le> length (hashes kmh)
                                then Some (Some p,
                                       store w' p (kmh\<lparr>count := cnt,
                                         hashes := xs @ drop (unat cnt) (hashes kmh)\<rparr>))
                                else None)
                         else Some (Some p, store w' p (kmh\<lparr>count := cnt\<rparr>))))
         | _ \<Rightarrow> None))"

definition kmh_cardinality_from_serialized :: "u8 list \<Rightarrow> u32 \<Rightarrow> double option" where
  "kmh_cardinality_from_serialized buf buf_size =
     (if unat buf_size < 4 * sizeof_uint32_t then Some (Dbl (- 1))
      else
        (case (rd32 buf 0, rd32 buf sizeof_uint32_t, rd32 buf (2 * sizeof_uint32_t)) of
           (Some kk, Some cnt, Some sp) \<Rightarrow>
             if cnt = 0 then Some (Dbl 0)
             else if cnt < kk then Some (Dbl (dbl_of_u32 cnt))
             else
               (case rd32 buf (4 * sizeof_uint32_t) of
                  None \<Rightarrow> None
                | Some delta \<Rightarrow>
                    Some (ddiv (dbl_of_u32 sp * dbl_of_u32 (kk - 1)) (dbl_of_u32 (delta + 1))))
         | _ \<Rightarrow> None))"

subsection \<open>Invariants\<close>

text \<open>The stored hashes: the first \<^verbatim>\<open>count\<close> cells of the array.\<close>

definition stored :: "kvalue_minhash_t \<Rightarrow> u32 list" where
  "stored s = take (unat (count s)) (hashes s)"

text \<open>
  The sketch invariants of the data model: \<^verbatim>\<open>count\<close> does not exceed \<^verbatim>\<open>k\<close>, the
  array has room for \<^verbatim>\<open>k\<close> cells, the stored hashes are strictly descending and each is
  below \<^verbatim>\<open>space_size\<close>.
\<close>

definition sketch_inv :: "kvalue_minhash_t \<Rightarrow> bool" where
  "sketch_inv s \<longleftrightarrow>
     count s \<le> k s \<and> unat (k s) \<le> length (hashes s) \<and>
     sorted_wrt (>) (stored s) \<and> list_all (\<lambda>h. h < space_size s) (stored s)"

text \<open>
  The shape of the static storage: \<^verbatim>\<open>MAX_INSTANCES\<close> slots with \<^verbatim>\<open>MAX_K\<close> cells each
  and \<^verbatim>\<open>MAX_SERIALIZE_BUFFERS\<close> buffers.
\<close>

definition world_ok :: "kmh_world \<Rightarrow> bool" where
  "world_ok w \<longleftrightarrow>
     length (in_use w) = MAX_INSTANCES \<and> length (pool w) = MAX_INSTANCES \<and>
     list_all (\<lambda>s. length (hashes s) = MAX_K) (pool w) \<and>
     length (busy w) = MAX_SERIALIZE_BUFFERS"

subsection \<open>The distance walk as the specification words it\<close>

text \<open>
  The synchronized walk over the two stored sequences: on equal heads both advance and a
  match is counted, otherwise the sequence with the larger head advances; every step is
  one comparison, and the walk stops when a sequence is exhausted or the budget of
  comparisons is used up.  The result is the pair of matches and comparisons.
\<close>

fun spec_walk :: "u32 list \<Rightarrow> u32 list \<Rightarrow> nat \<Rightarrow> nat \<times> nat" where
  "spec_walk (x # xs) (y # ys) (Suc n) =
     (if x = y then (case spec_walk xs ys n of (m, c) \<Rightarrow> (Suc m, Suc c))
      else if x > y then (case spec_walk xs (y # ys) n of (m, c) \<Rightarrow> (m, Suc c))
      else (case spec_walk (x # xs) ys n of (m, c) \<Rightarrow> (m, Suc c)))"
| "spec_walk xs ys n = (0, 0)"

definition spec_distance :: "kvalue_minhash_t \<Rightarrow> kvalue_minhash_t \<Rightarrow> real" where
  "spec_distance a b =
     (case spec_walk (stored a) (stored b) (unat (k a)) of
        (matches, compared) \<Rightarrow>
          if compared = 0 then 1 else 1 - real matches / real compared)"

subsection \<open>Merging seen on lists\<close>

text \<open>The cells at indices \<open>i, i - 1, \<dots>, 0\<close>: what a tail index still has to visit.\<close>

definition tail_asc :: "u32 list \<Rightarrow> int \<Rightarrow> u32 list" where
  "tail_asc xs i = rev (take (nat (i + 1)) xs)"

text \<open>The union of two ascending sequences, equal heads taken once.\<close>

fun umerge :: "u32 list \<Rightarrow> u32 list \<Rightarrow> u32 list" where
  "umerge [] ys = ys"
| "umerge xs [] = xs"
| "umerge (x # xs) (y # ys) =
     (if x < y then x # umerge xs (y # ys)
      else if x > y then y # umerge (x # xs) ys
      else x # umerge xs ys)"

subsection \<open>The serialized bytes\<close>

text \<open>
  The bytes \<^verbatim>\<open>kmh_serialize\<close> writes for a sketch whose count does not make the size
  computation wrap: the four fields, the redirected pointer, and the stored hashes.
\<close>

definition struct_dump :: "kvalue_minhash_t \<Rightarrow> u64 \<Rightarrow> u8 list" where
  "struct_dump s p =
     le32 (k s) @ le32 (count s) @ le32 (space_size s) @ le32 (seed s) @ le64 p
     @ concat (map le32 (stored s))"

subsection \<open>Example data\<close>

text \<open>
  A world whose pools are exhausted, so that sketches and buffers come from the heap, with
  three sketches of capacity 4 in it: two that share two hashes and an empty one.
\<close>

definition ex_a :: kvalue_minhash_t where
  "ex_a = \<lparr>k = 4, count = 4, space_size = 1000, seed = 42, hashes = [799, 217, 202, 85]\<rparr>"

definition ex_b :: kvalue_minhash_t where
  "ex_b = \<lparr>k = 4, count = 4, space_size = 1000, seed = 42, hashes = [764, 217, 202, 198]\<rparr>"

definition ex_empty :: kvalue_minhash_t where
  "ex_empty = \<lparr>k = 4, count = 0, space_size = 1000, seed = 42, hashes = [0, 0, 0, 0]\<rparr>"

definition ex_small :: kvalue_minhash_t where
  "ex_small = \<lparr>k = 2, count = 2, space_size = 1000, seed = 42, hashes = [7, 3]\<rparr>"

definition ex_world :: kmh_world where
  "ex_world =
     \<lparr>in_use = [True, True, True, True],
      pool = replicate 4 \<lparr>k = 0, count = 0, space_size = 0, seed = 0,
                           hashes = replicate 1024 0\<rparr>,
      heap = [Some ex_a, Some ex_b, Some ex_empty, Some ex_small],
      heap_left = 4096,
      junk = (\<lambda>i. 0),
      busy = [True, True, True, True],
      buffer_addr = (\<lambda>i. 0x404000 + of_nat (i * 4124)),
      malloc_addr = 0x1000000\<rparr>"

text \<open>
  The example world with an exhausted heap, and a sketch of \<open>2\<^sup>3\<^sup>1 + 1\<close> hashes (the
  values \<open>2\<^sup>3\<^sup>1, \<dots>, 1, 0\<close>) alone in a world whose heap can hold a second one.
\<close>

definition ex_world_no_heap :: kmh_world where
  "ex_world_no_heap = ex_world\<lparr>heap_left := 0\<rparr>"

definition ex_big_cells :: "u32 list" where
  "ex_big_cells = map of_nat (rev [0..<2147483649])"

definition ex_big :: kvalue_minhash_t where
  "ex_big = \<lparr>k = 2147483649, count = 2147483649, space_size = 4294967295, seed = 42,
             hashes = ex_big_cells\<rparr>"

definition ex_big_world :: kmh_world where
  "ex_big_world = ex_world\<lparr>heap := [Some ex_big], heap_left := 17179869184\<rparr>"

text \<open>
  A sketch of capacity 10241, the example world with free serialization buffers, and a
  blob of 28 bytes whose header announces capacity 4 and no hashes.
\<close>

definition ex_wide :: kvalue_minhash_t where
  "ex_wide = \<lparr>k = 10241, count = 0, space_size = 1000, seed = 42, hashes = replicate 10241 0\<rparr>"

definition ex_world_free :: kmh_world where
  "ex_world_free = ex_world\<lparr>busy := [False, False, False, False]\<rparr>"

definition ex_blob_long :: "u8 list" where
  "ex_blob_long = [4, 0, 0, 0, 0, 0, 0, 0, 232, 3, 0, 0, 42, 0, 0, 0,
                   0, 0, 0, 0, 0, 0, 0, 0, 0, 0, 0, 0]"

text \<open>
  A blob in the layout \<^verbatim>\<open>kmh_serialize\<close> writes whose first hash is \<^verbatim>\<open>0xFFFFFFFF\<close>, a
  blob of 32 bytes whose header announces more hashes than capacity, and a world that
  holds the two example sketches in the other order and little heap.
\<close>

definition ex_blob_wrap :: "u8 list" where
  "ex_blob_wrap = [2, 0, 0, 0, 2, 0, 0, 0, 232, 3, 0, 0, 42, 0, 0, 0,
                   0, 0, 0, 0, 0, 0, 0, 0, 255, 255, 255, 255, 3, 0, 0, 0]"

definition ex_blob_overfull :: "u8 list" where
  "ex_blob_overfull = [1, 0, 0, 0, 2, 0, 0, 0, 232, 3, 0, 0, 42, 0, 0, 0,
                       0, 0, 0, 0, 0, 0, 0, 0, 7, 0, 0, 0, 3, 0, 0, 0]"

definition ex_world_swapped :: kmh_world where
  "ex_world_swapped = ex_world\<lparr>heap := [Some ex_b, Some ex_a], heap_left := 64\<rparr>"

section \<open>Properties\<close>

text \<open>
  Claim C2 (amended: the saturated case is a sketch with \<open>count = k > 0\<close> whose first
  hash is not \<^verbatim>\<open>0xFFFFFFFF\<close>).  The cardinality estimate is 0.0 for an empty sketch,
  the exact count for an unsaturated one, and \<open>space_size * (k - 1) / (hashes[0] + 1)\<close>
  for a saturated one.  The cases are read in the order the code tests them, so a sketch
  with \<open>count = k = 0\<close> is an empty one.  The sum \<^verbatim>\<open>hashes[0] + 1\<close> is a \<^verbatim>\<open>uint32_t\<close>: it
  is the mathematical sum unless \<^verbatim>\<open>hashes[0]\<close> is \<^verbatim>\<open>0xFFFFFFFF\<close>, which no sketch that
  satisfies the invariants holds, every stored hash being below \<^verbatim>\<open>space_size\<close>.  The
  array of a sketch has its \<^verbatim>\<open>k\<close> cells, as \<^verbatim>\<open>kmh_init\<close> allocates them.
\<close>

theorem kmh_cardinality_cases:
  "(count s = 0 \<longrightarrow> kmh_cardinality s = Some (Dbl 0)) \<and>
   (0 < count s \<and> count s < k s \<longrightarrow> kmh_cardinality s = Some (Dbl (real (unat (count s))))) \<and>
   (count s = k s \<and> 0 < count s \<and> unat (k s) \<le> length (hashes s)
      \<and> hd (hashes s) \<noteq> 4294967295 \<longrightarrow>
      kmh_cardinality s =
        Some (Dbl (real (unat (space_size s)) * (real (unat (k s)) - 1)
                    / (real (unat (hd (hashes s))) + 1))))"
proof (intro conjI impI)
  assume "count s = 0"
  then show "kmh_cardinality s = Some (Dbl 0)"
    by (simp add: kmh_cardinality_def)
next
  assume "0 < count s \<and> count s < k s"
  then show "kmh_cardinality s = Some (Dbl (real (unat (count s))))"
    by (auto simp: kmh_cardinality_def dbl_of_u32_def)
next
  assume a: "count s = k s \<and> 0 < count s \<and> unat (k s) \<le> length (hashes s)
      \<and> hd (hashes s) \<noteq> 4294967295"
  then have k0: "k s \<noteq> 0" by auto
  then have uk: "unat (k s - 1) = unat (k s) - 1"
    by (simp add: unat_minus_one)
  have kpos: "0 < unat (k s)" using k0 by (simp add: unat_gt_0)
  then have rk: "real (unat (k s) - 1) = real (unat (k s)) - 1"
    by (simp add: of_nat_diff)
  have cells: "hashes s \<noteq> []" using a kpos by auto
  have "(4294967295 :: u32) = - 1" by simp
  with a have "hd (hashes s) \<noteq> - 1" by metis
  then have "hd (hashes s) + 1 \<noteq> 0"
    by (metis add.commute add_eq_0_iff)
  then have uh: "unat (hd (hashes s) + 1) = Suc (unat (hd (hashes s)))"
    by (metis add.commute unatSuc)
  have h0: "rd (hashes s) 0 = Some (hd (hashes s))"
    using cells by (simp add: rd_def hd_conv_nth)
  have num: "dbl_of_u32 (k s - 1) = real (unat (k s)) - 1"
    unfolding dbl_of_u32_def uk rk ..
  have den: "dbl_of_u32 (hd (hashes s) + 1) = real (unat (hd (hashes s))) + 1"
    unfolding dbl_of_u32_def uh by simp
  have "kmh_cardinality s =
          Some (ddiv (dbl_of_u32 (space_size s) * dbl_of_u32 (k s - 1))
                     (dbl_of_u32 (hd (hashes s) + 1)))"
    using a h0 by (auto simp: kmh_cardinality_def)
  also have "\<dots> = Some (ddiv (dbl_of_u32 (space_size s) * (real (unat (k s)) - 1))
                            (real (unat (hd (hashes s))) + 1))"
    by (simp only: num den)
  also have "\<dots> = Some (Dbl (dbl_of_u32 (space_size s) * (real (unat (k s)) - 1)
                    / (real (unat (hd (hashes s))) + 1)))"
  proof -
    have "0 < real (unat (hd (hashes s))) + 1"
      by (rule add_nonneg_pos, rule of_nat_0_le_iff, rule zero_less_one)
    then have "real (unat (hd (hashes s))) + 1 \<noteq> 0" by linarith
    then show ?thesis
      by (simp only: ddiv_def if_False)
  qed
  also have "\<dots> = Some (Dbl (real (unat (space_size s)) * (real (unat (k s)) - 1)
                    / (real (unat (hd (hashes s))) + 1)))"
    by (simp only: dbl_of_u32_def)
  finally show "kmh_cardinality s =
        Some (Dbl (real (unat (space_size s)) * (real (unat (k s)) - 1)
                    / (real (unat (hd (hashes s))) + 1)))" .
qed

theorem kmh_cardinality_cases_witness:
  "kmh_cardinality \<lparr>k = 2, count = 0, space_size = 1000, seed = 42, hashes = [0, 0]\<rparr>
     = Some (Dbl 0) \<and>
   kmh_cardinality \<lparr>k = 2, count = 1, space_size = 1000, seed = 42, hashes = [7, 0]\<rparr>
     = Some (Dbl 1) \<and>
   kmh_cardinality \<lparr>k = 2, count = 2, space_size = 1000, seed = 42, hashes = [7, 3]\<rparr>
     = Some (Dbl 125) \<and>
   kmh_cardinality \<lparr>k = 2, count = 2, space_size = 1000, seed = 42, hashes = [1500, 3]\<rparr>
     = Some (Dbl (1000 / 1501))"
  using kmh_cardinality_cases
          [of "\<lparr>k = 2, count = 0, space_size = 1000, seed = 42, hashes = [0, 0]\<rparr>"]
        kmh_cardinality_cases
          [of "\<lparr>k = 2, count = 1, space_size = 1000, seed = 42, hashes = [7, 0]\<rparr>"]
        kmh_cardinality_cases
          [of "\<lparr>k = 2, count = 2, space_size = 1000, seed = 42, hashes = [7, 3]\<rparr>"]
        kmh_cardinality_cases
          [of "\<lparr>k = 2, count = 2, space_size = 1000, seed = 42, hashes = [1500, 3]\<rparr>"]
  by simp

text \<open>
  Two sketches on which the saturated case of the claim fails.  With
  \<^verbatim>\<open>hashes[0] = 0xFFFFFFFF\<close> the sum \<^verbatim>\<open>hashes[0] + 1\<close> wraps to 0 and the division yields
  infinity, not \<open>1000 \<cdot> 1 / 2\<^sup>3\<^sup>2\<close>; with \<open>count = k = 0\<close> the result is 0.0, not the value
  of the formula.  The first sketch is what \<^verbatim>\<open>kmh_deserialize\<close> returns for a blob of
  32 bytes, as it copies the hashes without looking at them.
\<close>

theorem kmh_cardinality_counterexample:
  "kmh_cardinality \<lparr>k = 2, count = 2, space_size = 1000, seed = 42,
                    hashes = [4294967295, 3]\<rparr> = Some DInf \<and>
   kmh_cardinality \<lparr>k = 2, count = 2, space_size = 1000, seed = 42,
                    hashes = [4294967295, 3]\<rparr>
     \<noteq> Some (Dbl (1000 * (2 - 1) / (4294967295 + 1))) \<and>
   kmh_cardinality \<lparr>k = 0, count = 0, space_size = 1000, seed = 42,
                    hashes = replicate 1024 7\<rparr> = Some (Dbl 0) \<and>
   kmh_cardinality \<lparr>k = 0, count = 0, space_size = 1000, seed = 42,
                    hashes = replicate 1024 7\<rparr>
     \<noteq> Some (Dbl (1000 * (0 - 1) / (7 + 1))) \<and>
   kmh_cardinality \<lparr>k = 0, count = 0, space_size = 1000, seed = 42,
                    hashes = replicate 1024 7\<rparr>
     \<noteq> Some (Dbl (1000 * 4294967295 / (7 + 1))) \<and>
   kmh_deserialize ex_world ex_blob_wrap 32 \<noteq> None \<and>
   fst (the (kmh_deserialize ex_world ex_blob_wrap 32)) = Some (HeapBlock 4) \<and>
   map_option stored (deref (snd (the (kmh_deserialize ex_world ex_blob_wrap 32))) (HeapBlock 4))
     = Some [4294967295, 3] \<and>
   map_option kmh_cardinality
       (deref (snd (the (kmh_deserialize ex_world ex_blob_wrap 32))) (HeapBlock 4))
     = Some (Some DInf)"
proof -
  have c1: "kmh_cardinality \<lparr>k = 2, count = 2, space_size = 1000, seed = 42,
                    hashes = [4294967295, 3]\<rparr> = Some DInf"
    by (simp add: kmh_cardinality_def rd_def ddiv_def dbl_of_u32_def)
  have c2: "kmh_cardinality \<lparr>k = 0, count = 0, space_size = 1000, seed = 42,
                    hashes = replicate 1024 7\<rparr> = Some (Dbl 0)"
    by (simp add: kmh_cardinality_def)
  have u2: "unat (2 :: u32) = Suc (Suc 0)" by simp
  have m: "map (\<lambda>i. 0 :: u32) [0..<unat (2 :: u32)] = [0, 0]"
    unfolding u2 by simp
  have r: "rd32s ex_blob_wrap 24 2 = Some [4294967295, 3]"
    unfolding numeral_2_eq_2 by (simp add: rd32_def word_le32_def ex_blob_wrap_def)
  have dr: "deref (ex_world\<lparr>heap := heap ex_world @ [Some \<lparr>k = 2, count = 0, space_size = 1000,
                                   seed = 42, hashes = [0, 0]\<rparr>],
                  heap_left := heap_left ex_world - 32\<rparr>) (HeapBlock 4)
       = Some \<lparr>k = 2, count = 0, space_size = 1000, seed = 42, hashes = [0, 0]\<rparr>"
    by (simp add: deref_def ex_world_def)
  have i: "kmh_init ex_world 2 1000 42
      = (Some (HeapBlock 4),
         ex_world\<lparr>heap := heap ex_world @ [Some \<lparr>k = 2, count = 0, space_size = 1000,
                                   seed = 42, hashes = [0, 0]\<rparr>],
                  heap_left := heap_left ex_world - 32\<rparr>)"
    unfolding kmh_init_def m [symmetric]
    by (simp add: ex_world_def MAX_K_def MAX_INSTANCES_def Let_def
          sizeof_kvalue_minhash_t_def sizeof_uint32_t_def)
  have h: "rd32 ex_blob_wrap 0 = Some 2" "rd32 ex_blob_wrap 4 = Some 2"
    "rd32 ex_blob_wrap 8 = Some 1000" "rd32 ex_blob_wrap 12 = Some 42"
    by (simp_all add: rd32_def word_le32_def ex_blob_wrap_def)
  have d0: "kmh_deserialize ex_world ex_blob_wrap 32
      = Some (Some (HeapBlock 4),
          store (ex_world\<lparr>heap := heap ex_world @ [Some \<lparr>k = 2, count = 0, space_size = 1000,
                                   seed = 42, hashes = [0, 0]\<rparr>],
                  heap_left := heap_left ex_world - 32\<rparr>) (HeapBlock 4)
             \<lparr>k = 2, count = 2, space_size = 1000, seed = 42, hashes = [4294967295, 3]\<rparr>)"
    by (simp add: kmh_deserialize_def h i r dr sizeof_kvalue_minhash_t_def sizeof_uint32_t_def
          MAX_K_def)
  have d: "fst (the (kmh_deserialize ex_world ex_blob_wrap 32)) = Some (HeapBlock 4) \<and>
     deref (snd (the (kmh_deserialize ex_world ex_blob_wrap 32))) (HeapBlock 4)
       = Some \<lparr>k = 2, count = 2, space_size = 1000, seed = 42, hashes = [4294967295, 3]\<rparr>"
    unfolding d0 by (simp add: deref_def store_def ex_world_def)
  have dn: "kmh_deserialize ex_world ex_blob_wrap 32 \<noteq> None"
    unfolding d0 by simp
  show ?thesis unfolding c1 c2 using d dn
    by (simp add: stored_def c1)
qed

text \<open>
  Claim C8.  On two sketches that differ in \<^verbatim>\<open>k\<close>, in \<^verbatim>\<open>space_size\<close> or in \<^verbatim>\<open>seed\<close>,
  \<^verbatim>\<open>kmh_merge\<close> returns \<^verbatim>\<open>NULL\<close> and allocates nothing (the world is unchanged), and
  \<^verbatim>\<open>kmh_distance\<close> returns -1.0.
\<close>

theorem incompatible_rejected:
  assumes "deref w pa = Some a" and "deref w pb = Some b"
    and "k a \<noteq> k b \<or> space_size a \<noteq> space_size b \<or> seed a \<noteq> seed b"
  shows "kmh_merge w pa pb = Some (None, w) \<and> kmh_distance a b = Some (Dbl (- 1))"
  using assms by (simp add: kmh_merge_def kmh_distance_def incompatible_def)

theorem incompatible_rejected_witness:
  "kmh_merge ex_world (HeapBlock 0) (HeapBlock 3) = Some (None, ex_world) \<and>
   kmh_distance ex_a ex_small = Some (Dbl (- 1))"
proof -
  have a: "deref ex_world (HeapBlock 0) = Some ex_a"
    by (simp add: deref_def ex_world_def)
  have b: "deref ex_world (HeapBlock 3) = Some ex_small"
    by (simp add: deref_def ex_world_def)
  have c: "k ex_a \<noteq> k ex_small \<or> space_size ex_a \<noteq> space_size ex_small
           \<or> seed ex_a \<noteq> seed ex_small"
    by (simp add: ex_a_def ex_small_def)
  show ?thesis by (rule incompatible_rejected [OF a b c])
qed

subsection \<open>Adding values\<close>

lemma find_dup_eq:
  "cnt \<le> length hs \<Longrightarrow> find_dup hs cnt hash j = Some (hash \<in> set (drop j (take cnt hs)))"
proof (induction hs cnt hash j rule: find_dup.induct)
  case (1 hs cnt hash j)
  show ?case
  proof (cases "j < cnt")
    case False
    then show ?thesis by (subst find_dup.simps) simp
  next
    case True
    then have r: "rd hs j = Some (hs ! j)" using 1(2) by (simp add: rd_def)
    have d: "drop j (take cnt hs) = hs ! j # drop (Suc j) (take cnt hs)"
      using True 1(2) by (metis Cons_nth_drop_Suc length_take min.absorb2 nth_take)
    show ?thesis
    proof (cases "hs ! j = hash")
      case True
      then show ?thesis using r d \<open>j < cnt\<close> by (subst find_dup.simps) auto
    next
      case False
      then have "find_dup hs cnt hash (Suc j) = Some (hash \<in> set (drop (Suc j) (take cnt hs)))"
        using 1(1) [OF True r] 1(2) by simp
      then show ?thesis using r d False \<open>j < cnt\<close> by (subst find_dup.simps) auto
    qed
  qed
qed

lemma insert_loop_eq:
  "i < length hs \<Longrightarrow>
   insert_loop hs i h = Some (rev (insort h (rev (take i hs))) @ drop (Suc i) hs)"
proof (induction i arbitrary: hs)
  case 0
  then show ?case by (cases hs) (simp_all add: wr_def)
next
  case (Suc i)
  then have r: "rd hs i = Some (hs ! i)" by (simp add: rd_def)
  have t: "take (Suc i) hs = take i hs @ [hs ! i]"
    using Suc.prems by (simp add: take_Suc_conv_app_nth)
  show ?case
  proof (cases "hs ! i < h")
    case True
    let ?hs' = "hs[Suc i := hs ! i]"
    have w: "wr hs (Suc i) (hs ! i) = Some ?hs'" using Suc.prems by (simp add: wr_def)
    have "i < length ?hs'" using Suc.prems by simp
    from Suc.IH [OF this]
    have "insert_loop ?hs' i h = Some (rev (insort h (rev (take i ?hs'))) @ drop (Suc i) ?hs')" .
    moreover have "take i ?hs' = take i hs" by simp
    moreover have "drop (Suc i) ?hs' = hs ! i # drop (Suc (Suc i)) hs"
      using Suc.prems by (simp add: drop_update_cancel Cons_nth_drop_Suc[symmetric] )
    ultimately show ?thesis using True r w t by simp
  next
    case False
    have w: "wr hs (Suc i) h = Some (hs[Suc i := h])" using Suc.prems by (simp add: wr_def)
    have "hs[Suc i := h] = take (Suc i) hs @ h # drop (Suc (Suc i)) hs"
      using Suc.prems by (simp add: upd_conv_take_nth_drop)
    then show ?thesis using False r w t by simp
  qed
qed

lemma take_insort_below:
  "sorted L \<Longrightarrow> n < length L \<Longrightarrow> h < L ! n \<Longrightarrow> take (Suc n) (insort h L) = insort h (take n L)"
proof (induction L arbitrary: n)
  case Nil
  then show ?case by simp
next
  case (Cons x xs)
  show ?case
  proof (cases n)
    case 0
    then show ?thesis using Cons.prems by auto
  next
    case (Suc m)
    then show ?thesis using Cons.prems Cons.IH [of m] by auto
  qed
qed

lemma take_insort_above:
  "sorted L \<Longrightarrow> n < length L \<Longrightarrow> L ! n < h \<Longrightarrow> take (Suc n) (insort h L) = take (Suc n) L"
proof (induction L arbitrary: n)
  case Nil
  then show ?case by simp
next
  case (Cons x xs)
  have xle: "x \<le> (x # xs) ! n" using Cons.prems(1,2)
    by (metis nth_mem set_ConsD sorted_simps(2) order_refl)
  then have nh: "\<not> h \<le> x" using Cons.prems(3) by simp
  show ?case
  proof (cases n)
    case 0
    then show ?thesis using Cons.prems nh by auto
  next
    case (Suc m)
    then show ?thesis using Cons.prems Cons.IH [of m] nh by auto
  qed
qed

lemma tl_rev_butlast: "tl (rev xs) = rev (butlast xs)"
  by (cases xs rule: rev_cases) simp_all

lemma unat_inc: "(a::u32) < b \<Longrightarrow> unat (a + 1) = Suc (unat a)"
proof -
  assume "a < b"
  then have "unat a < unat b" by (simp add: word_less_nat_alt)
  moreover have "unat b < 2 ^ 32" using unsigned_less [of b, where ?'a = nat] by simp
  ultimately have "unat a + 1 < 2 ^ 32" by simp
  then show ?thesis by (simp add: unat_word_ariths)
qed

lemma kmh_add_dup:
  assumes cap: "unat (count s) \<le> length (hashes s)" and sp: "space_size s \<noteq> 0"
    and mem: "xxh32_hash v (seed s) mod space_size s \<in> set (stored s)"
  shows "kmh_add s v = Some s"
proof -
  have "find_dup (hashes s) (unat (count s)) (xxh32_hash v (seed s) mod space_size s) 0
          = Some True"
    using find_dup_eq [OF cap, of _ 0] mem by (simp add: stored_def)
  then show ?thesis using sp by (simp add: kmh_add_def Let_def)
qed

lemma kmh_add_step:
  assumes fin: "finite H"
    and st: "stored s = rev (take (unat (k s)) (sorted_list_of_set H))"
    and ck: "count s \<le> k s" and cap: "unat (k s) \<le> length (hashes s)"
    and k0: "k s \<noteq> 0" and sp: "space_size s \<noteq> 0"
  shows "\<exists>s'. kmh_add s v = Some s' \<and>
           stored s' = rev (take (unat (k s))
              (sorted_list_of_set (insert (xxh32_hash v (seed s) mod space_size s) H))) \<and>
           k s' = k s \<and> space_size s' = space_size s \<and> seed s' = seed s \<and>
           count s' \<le> k s' \<and> length (hashes s') = length (hashes s)"
proof -
  define h where "h = xxh32_hash v (seed s) mod space_size s"
  define K where "K = unat (k s)"
  define c where "c = unat (count s)"
  define L where "L = sorted_list_of_set H"
  define T where "T = take K L"
  have cK: "c \<le> K" using ck by (simp add: c_def K_def word_le_nat_alt)
  have Kcap: "K \<le> length (hashes s)" using cap by (simp add: K_def)
  have ccap: "c \<le> length (hashes s)" using cK Kcap by simp
  have K0: "0 < K" using k0 by (simp add: K_def unat_gt_0)
  have stT: "stored s = rev T" using st by (simp add: T_def K_def L_def)
  have lenst: "length (stored s) = c" using ccap by (simp add: stored_def c_def)
  then have lenT: "length T = c" using stT by simp
  have sL: "sorted L" and dL: "distinct L" and setL: "set L = H"
    using fin by (simp_all add: L_def)
  have lenL: "length L = card H" by (simp add: L_def)
  have sT: "sorted T" using sL by (simp add: T_def sorted_wrt_take)
  have fd: "find_dup (hashes s) c h 0 = Some (h \<in> set T)"
    using find_dup_eq [OF ccap, of h 0] stT by (simp add: stored_def c_def)
  have ins: "h \<notin> H \<Longrightarrow> sorted_list_of_set (insert h H) = insort h L"
    using fin by (simp add: L_def)
  show ?thesis
  proof (cases "h \<in> set T")
    case True
    then have "h \<in> H" using setL by (auto simp: T_def dest: in_set_takeD)
    then have "insert h H = H" by auto
    moreover have "kmh_add s v = Some s"
      using fd True sp unfolding kmh_add_def Let_def h_def[symmetric] c_def[symmetric] by simp
    ultimately show ?thesis using st ck unfolding h_def[symmetric] by simp
  next
    case notin: False
    show ?thesis
    proof (cases "count s < k s")
      case True
      then have cltK: "c < K" by (simp add: c_def K_def word_less_nat_alt)
      then have TL: "T = L" using lenT by (simp add: T_def)
      then have hH: "h \<notin> H" using notin setL by simp
      have clen: "c < length (hashes s)" using cltK Kcap by simp
      define hs' where "hs' = rev (insort h (rev (take c (hashes s)))) @ drop (Suc c) (hashes s)"
      have il: "insert_loop (hashes s) c h = Some hs'"
        using insert_loop_eq [OF clen] by (simp add: hs'_def)
      have tk: "take c (hashes s) = rev T" using stT by (simp add: stored_def c_def)
      have hs'2: "hs' = rev (insort h L) @ drop (Suc c) (hashes s)"
        by (simp add: hs'_def tk TL)
      have c1: "unat (count s + 1) = Suc c"
        using True by (simp add: unat_inc c_def)
      define s' where "s' = s\<lparr>hashes := hs', count := count s + 1\<rparr>"
      have add: "kmh_add s v = Some s'"
        using fd notin sp True il
        unfolding kmh_add_def Let_def h_def[symmetric] c_def[symmetric] s'_def by simp
      have "length (insort h L) = Suc c" using lenT TL by simp
      then have "stored s' = rev (insort h L)"
        by (simp add: stored_def s'_def c1 hs'2)
      moreover have "take K (insort h L) = insort h L"
        using \<open>length (insort h L) = Suc c\<close> cltK by simp
      moreover have "count s' \<le> k s'"
        using True by (simp add: s'_def inc_le)
      moreover have "length (hashes s') = length (hashes s)"
        using clen lenT TL by (simp add: s'_def hs'2)
      ultimately show ?thesis
        using add ins [OF hH] unfolding h_def[symmetric] K_def[symmetric]
        by (simp add: s'_def)
    next
      case False
      then have ceq: "count s = k s" using ck by simp
      then have cK2: "c = K" by (simp add: c_def K_def)
      have lenTK: "length T = K" using lenT cK2 by simp
      then have KL: "K \<le> length L" by (simp add: T_def)
      obtain m where m: "K = Suc m" using K0 by (cases K) auto
      have mL: "m < length L" using KL m by simp
      have h0: "rd (hashes s) 0 = Some (L ! m)"
      proof -
        have "hashes s ! 0 = stored s ! 0" using K0 cK2 by (simp add: stored_def c_def)
        also have "\<dots> = rev T ! 0" using stT by simp
        also have "\<dots> = T ! m" using lenTK m by (simp add: rev_nth)
        also have "\<dots> = L ! m" using m by (simp add: T_def)
        finally show ?thesis using K0 Kcap by (auto simp: rd_def)
      qed
      show ?thesis
      proof (cases "h \<ge> L ! m")
        case True
        have add: "kmh_add s v = Some s"
          using fd notin sp False h0 True
          unfolding kmh_add_def Let_def h_def[symmetric] c_def[symmetric] by simp
        have "take K (sorted_list_of_set (insert h H)) = T"
        proof (cases "h \<in> H")
          case True
          then have "insert h H = H" by auto
          then show ?thesis by (simp add: T_def L_def)
        next
          case hH: False
          then have "h \<noteq> L ! m" using setL mL nth_mem by metis
          then have "L ! m < h" using True by simp
          then show ?thesis using take_insort_above [OF sL mL] ins [OF hH] m
            by (simp add: T_def)
        qed
        then show ?thesis using add stT ck unfolding h_def[symmetric] K_def[symmetric] by simp
      next
        case lt: False
        then have hlt: "h < L ! m" by simp
        have hH: "h \<notin> H"
        proof
          assume "h \<in> H"
          then have "h \<in> set L" using setL by simp
          then obtain i where i: "i < length L" "L ! i = h" by (auto simp: in_set_conv_nth)
          have "\<not> i < K" using notin i by (auto simp: T_def in_set_conv_nth)
          then have "m \<le> i" using m by simp
          then have "L ! m \<le> L ! i" using sL i(1) by (simp add: sorted_nth_mono)
          then show False using hlt i(2) by simp
        qed
        have um: "unat (k s - 1) = m" using k0 m by (simp add: unat_minus_one K_def)
        define hs1 where "hs1 = take m (drop 1 (hashes s)) @ drop m (hashes s)"
        have mm: "memmove_left (hashes s) m = Some hs1"
          using Kcap m by (simp add: memmove_left_def hs1_def)
        have len1: "length hs1 = length (hashes s)"
          using Kcap m by (simp add: hs1_def)
        have mlen: "m < length hs1" using len1 Kcap m by simp
        have tk: "take K (hashes s) = rev T" using stT cK2 by (simp add: stored_def c_def)
        have "take m hs1 = take m (drop 1 (hashes s))"
          using Kcap m by (simp add: hs1_def)
        also have "\<dots> = tl (take K (hashes s))"
          by (simp add: m drop_Suc tl_take drop_take)
        also have "\<dots> = rev (butlast T)" using tk by (simp add: tl_rev_butlast)
        finally have tk1: "take m hs1 = rev (butlast T)" .
        have bl: "butlast T = take m L" using m mL by (simp add: T_def butlast_take)
        define hs2 where "hs2 = rev (insort h (take m L)) @ drop (Suc m) hs1"
        have il: "insert_loop hs1 m h = Some hs2"
          using insert_loop_eq [OF mlen] by (simp add: hs2_def tk1 bl)
        define s' where "s' = s\<lparr>hashes := hs2\<rparr>"
        have add: "kmh_add s v = Some s'"
          using fd notin sp False h0 lt mm il um
          unfolding kmh_add_def Let_def h_def[symmetric] c_def[symmetric] s'_def by simp
        have li: "length (insort h (take m L)) = K" using m mL by simp
        then have "stored s' = rev (insort h (take m L))"
          using cK2 by (simp add: stored_def s'_def hs2_def c_def)
        moreover have "take K (insort h L) = insort h (take m L)"
          using take_insort_below [OF sL mL hlt] m by simp
        moreover have "length (hashes s') = length (hashes s)"
          using li len1 mlen m by (simp add: s'_def hs2_def)
        ultimately show ?thesis
          using add ins [OF hH] ck unfolding h_def[symmetric] K_def[symmetric]
          by (simp add: s'_def)
      qed
    qed
  qed
qed

lemma scan_free_Some:
  "scan_free bs i = Some j \<Longrightarrow> i \<le> j \<and> j - i < length bs \<and> \<not> bs ! (j - i)"
proof (induction bs arbitrary: i)
  case Nil
  then show ?case by simp
next
  case (Cons b bs)
  show ?case
  proof (cases b)
    case False
    then show ?thesis using Cons.prems by simp
  next
    case True
    then have "scan_free bs (Suc i) = Some j" using Cons.prems by simp
    from Cons.IH [OF this] have "Suc i \<le> j" "j - Suc i < length bs" "\<not> bs ! (j - Suc i)"
      by simp_all
    moreover have "j - i = Suc (j - Suc i)" using \<open>Suc i \<le> j\<close> by simp
    ultimately show ?thesis by simp
  qed
qed

text \<open>
  What a successful \<^verbatim>\<open>kmh_init\<close> provides: an empty sketch with room for \<^verbatim>\<open>k\<close> cells
  at a pointer that was not live, with every live sketch unchanged.
\<close>

lemma kmh_init_Some:
  assumes ok: "world_ok w" and init: "kmh_init w kk sp sd = (Some p, w')"
  shows "(\<exists>cells. deref w' p = Some \<lparr>k = kk, count = 0, space_size = sp, seed = sd,
                                      hashes = cells\<rparr> \<and> unat kk \<le> length cells) \<and>
      deref w p = None \<and> (\<forall>q. deref w q \<noteq> None \<longrightarrow> deref w' q = deref w q) \<and> world_ok w'"
proof -
  let ?sc = "if unat kk \<le> MAX_K then scan_free (take MAX_INSTANCES (in_use w)) 0 else None"
  have lens: "length (in_use w) = MAX_INSTANCES" "length (pool w) = MAX_INSTANCES"
    and cells: "list_all (\<lambda>s. length (hashes s) = MAX_K) (pool w)"
    using ok by (simp_all add: world_ok_def)
  show ?thesis
  proof (cases ?sc)
    case None
    then have bytes: "sizeof_kvalue_minhash_t + unat kk * sizeof_uint32_t \<le> heap_left w"
      and p: "p = HeapBlock (length (heap w))"
      and w': "w' = w\<lparr>heap := heap w @ [Some \<lparr>k = kk, count = 0, space_size = sp, seed = sd,
                                             hashes = map (junk w) [0..<unat kk]\<rparr>],
                   heap_left := heap_left w
                      - (sizeof_kvalue_minhash_t + unat kk * sizeof_uint32_t)\<rparr>"
      using init by (auto simp: kmh_init_def Let_def split: if_splits)
    have "\<And>q. deref w q \<noteq> None \<Longrightarrow> deref w' q = deref w q"
      by (auto simp: deref_def w' nth_append split: kmh_ptr.splits if_splits)
    moreover have "deref w p = None" by (simp add: deref_def p)
    moreover have "deref w' p = Some \<lparr>k = kk, count = 0, space_size = sp, seed = sd,
                                      hashes = map (junk w) [0..<unat kk]\<rparr>"
      by (simp add: deref_def p w')
    moreover have "world_ok w'" using ok by (simp add: world_ok_def w')
    ultimately show ?thesis
      by simp
  next
    case (Some i)
    then have kk: "unat kk \<le> MAX_K"
      and sc: "scan_free (take MAX_INSTANCES (in_use w)) 0 = Some i"
      by (simp_all split: if_splits)
    from scan_free_Some [OF sc] lens have i: "i < MAX_INSTANCES" and free: "\<not> in_use w ! i"
      by simp_all
    have p: "p = PoolSlot i"
      and w': "w' = w\<lparr>in_use := (in_use w)[i := True],
             pool := (pool w)[i := \<lparr>k = kk, count = 0, space_size = sp, seed = sd,
                                    hashes = hashes (pool w ! i)\<rparr>]\<rparr>"
      using init Some by (auto simp: kmh_init_def)
    have len: "length (hashes (pool w ! i)) = MAX_K"
      using cells i lens by (simp add: list_all_length)
    have "\<And>q. deref w q \<noteq> None \<Longrightarrow> deref w' q = deref w q"
    proof -
      fix q assume live: "deref w q \<noteq> None"
      show "deref w' q = deref w q"
      proof (cases q)
        case (PoolSlot j)
        then have "j \<noteq> i" using live free by (auto simp: deref_def split: if_splits)
        then show ?thesis by (simp add: deref_def PoolSlot w')
      next
        case (HeapBlock n)
        then show ?thesis by (simp add: deref_def w')
      qed
    qed
    moreover have "deref w p = None" using free by (simp add: deref_def p)
    moreover have "deref w' p = Some \<lparr>k = kk, count = 0, space_size = sp, seed = sd,
                                      hashes = hashes (pool w ! i)\<rparr>"
      using i lens by (simp add: deref_def p w')
    moreover have "world_ok w'"
    proof -
      have "list_all (\<lambda>s. length (hashes s) = MAX_K)
              ((pool w)[i := \<lparr>k = kk, count = 0, space_size = sp, seed = sd,
                                 hashes = hashes (pool w ! i)\<rparr>])"
        using cells len
        by (auto simp: list_all_iff dest!: set_update_subset_insert [THEN subsetD])
      then show ?thesis using ok by (simp add: world_ok_def w')
    qed
    ultimately show ?thesis
      using kk len by simp
  qed
qed

lemma kmh_add_all_inv:
  assumes "finite H"
    and "stored s = rev (take (unat (k s)) (sorted_list_of_set H))"
    and "count s \<le> k s" and "unat (k s) \<le> length (hashes s)"
    and "k s \<noteq> 0" and "space_size s \<noteq> 0"
  shows "\<exists>s'. kmh_add_all s vs = Some s' \<and>
           stored s' = rev (take (unat (k s))
              (sorted_list_of_set (H \<union> (\<lambda>v. xxh32_hash v (seed s) mod space_size s) ` set vs))) \<and>
           k s' = k s \<and> space_size s' = space_size s \<and> seed s' = seed s \<and>
           count s' \<le> k s' \<and> length (hashes s') = length (hashes s)"
  using assms
proof (induction vs arbitrary: s H)
  case Nil
  then show ?case by simp
next
  case (Cons v vs)
  let ?h = "xxh32_hash v (seed s) mod space_size s"
  from kmh_add_step [OF Cons.prems, of v]
  obtain s1 where s1: "kmh_add s v = Some s1"
    "stored s1 = rev (take (unat (k s)) (sorted_list_of_set (insert ?h H)))"
    "k s1 = k s" "space_size s1 = space_size s" "seed s1 = seed s"
    "count s1 \<le> k s1" "length (hashes s1) = length (hashes s)"
    by blast
  have "finite (insert ?h H)" using Cons.prems(1) by simp
  from Cons.IH [OF this, of s1] s1 Cons.prems
  obtain s' where s': "kmh_add_all s1 vs = Some s'"
    "stored s' = rev (take (unat (k s1))
        (sorted_list_of_set (insert ?h H \<union> (\<lambda>v. xxh32_hash v (seed s1) mod space_size s1) ` set vs)))"
    "k s' = k s1" "space_size s' = space_size s1" "seed s' = seed s1"
    "count s' \<le> k s'" "length (hashes s') = length (hashes s1)"
    by auto
  have "insert ?h H \<union> (\<lambda>v. xxh32_hash v (seed s) mod space_size s) ` set vs
        = H \<union> (\<lambda>v. xxh32_hash v (seed s) mod space_size s) ` set (v # vs)"
    by auto
  then show ?case using s1 s' by simp
qed

text \<open>
  Claim C1 (amended to \<^verbatim>\<open>k \<ge> 1\<close> and \<^verbatim>\<open>space_size \<ge> 1\<close>).  Starting from the empty
  sketch a successful \<^verbatim>\<open>kmh_init\<close> returns, every sequence of \<^verbatim>\<open>kmh_add\<close> calls is
  defined and leaves \<^verbatim>\<open>k\<close>, \<^verbatim>\<open>space_size\<close> and \<^verbatim>\<open>seed\<close> as they were; the stored
  hashes are, in descending order, the \<open>min(k, n)\<close> smallest of the \<open>n\<close> distinct hash
  values produced so far, hence strictly descending, each below \<^verbatim>\<open>space_size\<close>, with
  \<^verbatim>\<open>count = min(k, n) \<le> k\<close>; and adding a value whose hash is stored returns the
  sketch unchanged.
\<close>

theorem kmh_add_all_k_smallest:
  assumes ok: "world_ok w" and init: "kmh_init w kk sp sd = (Some p, w')"
    and kk: "kk \<noteq> 0" and sp: "sp \<noteq> 0"
  shows "\<exists>s0 s. deref w' p = Some s0 \<and> count s0 = 0 \<and> kmh_add_all s0 vs = Some s \<and>
           k s = kk \<and> space_size s = sp \<and> seed s = sd \<and>
           stored s = rev (take (unat kk)
              (sorted_list_of_set ((\<lambda>v. xxh32_hash v sd mod sp) ` set vs))) \<and>
           sorted_wrt (>) (stored s) \<and> list_all (\<lambda>h. h < sp) (stored s) \<and>
           unat (count s) = min (unat kk) (card ((\<lambda>v. xxh32_hash v sd mod sp) ` set vs)) \<and>
           count s \<le> k s \<and>
           (\<forall>v. xxh32_hash v sd mod sp \<in> set (stored s) \<longrightarrow> kmh_add s v = Some s)"
proof -
  let ?H = "(\<lambda>v. xxh32_hash v sd mod sp) ` set vs"
  let ?L = "sorted_list_of_set ?H"
  from kmh_init_Some [OF ok init] obtain cells where
    s0: "deref w' p = Some \<lparr>k = kk, count = 0, space_size = sp, seed = sd, hashes = cells\<rparr>"
    and cap: "unat kk \<le> length cells"
    by blast
  let ?s0 = "\<lparr>k = kk, count = 0, space_size = sp, seed = sd, hashes = cells\<rparr>"
  have "stored ?s0 = rev (take (unat (k ?s0)) (sorted_list_of_set {}))"
    by (simp add: stored_def)
  from kmh_add_all_inv [OF finite.emptyI this, of vs] cap kk sp
  obtain s where s: "kmh_add_all ?s0 vs = Some s"
    "stored s = rev (take (unat kk) ?L)"
    "k s = kk" "space_size s = sp" "seed s = sd" "count s \<le> k s"
    "length (hashes s) = length cells"
    by auto
  have "sorted_wrt (<) ?L" by simp
  then have "sorted_wrt (<) (take (unat kk) ?L)" by (rule sorted_wrt_take)
  then have desc: "sorted_wrt (>) (stored s)" by (simp add: s(2) sorted_wrt_rev)
  have "\<And>h. h \<in> set (stored s) \<Longrightarrow> h < sp"
  proof -
    fix h assume "h \<in> set (stored s)"
    then have "h \<in> set ?L" using s(2) by (auto dest: in_set_takeD)
    then have "h \<in> ?H" by simp
    then show "h < sp" using sp by (auto simp: word_mod_less_divisor word_neq_0_conv)
  qed
  then have below: "list_all (\<lambda>h. h < sp) (stored s)" by (simp add: list_all_iff)
  have "unat (count s) \<le> length (hashes s)"
    using s(3,6,7) cap by (simp add: word_le_nat_alt)
  then have cl: "unat (count s) = length (stored s)" by (simp add: stored_def)
  then have cnt: "unat (count s) = min (unat kk) (card ?H)" by (simp add: s(2) min.commute)
  have "\<And>v. xxh32_hash v sd mod sp \<in> set (stored s) \<Longrightarrow> kmh_add s v = Some s"
    using kmh_add_dup [of s] \<open>unat (count s) \<le> length (hashes s)\<close> s(4,5) sp by simp
  then show ?thesis using s0 s desc below cnt by auto
qed

text \<open>
  With \<^verbatim>\<open>space_size = 0\<close> the first \<^verbatim>\<open>kmh_add\<close> divides by zero, and with \<^verbatim>\<open>k = 0\<close> on a
  heap-allocated sketch it reads \<^verbatim>\<open>hashes[0]\<close> of an array without cells.
\<close>

theorem kmh_add_degenerate_counterexample:
  "fst (kmh_init ex_world 1 0 42) = Some (HeapBlock 4) \<and>
   deref (snd (kmh_init ex_world 1 0 42)) (HeapBlock 4)
     = Some \<lparr>k = 1, count = 0, space_size = 0, seed = 42, hashes = [0]\<rparr> \<and>
   kmh_add \<lparr>k = 1, count = 0, space_size = 0, seed = 42, hashes = [0]\<rparr> 5 = None \<and>
   fst (kmh_init ex_world 0 1000 42) = Some (HeapBlock 4) \<and>
   deref (snd (kmh_init ex_world 0 1000 42)) (HeapBlock 4)
     = Some \<lparr>k = 0, count = 0, space_size = 1000, seed = 42, hashes = []\<rparr> \<and>
   kmh_add \<lparr>k = 0, count = 0, space_size = 1000, seed = 42, hashes = []\<rparr> 5 = None"
  by (simp add: kmh_init_def ex_world_def MAX_K_def MAX_INSTANCES_def Let_def
        sizeof_kvalue_minhash_t_def sizeof_uint32_t_def deref_def kmh_add_def rd_def
        find_dup.simps)

lemma ex_world_ok: "world_ok ex_world"
  by (simp add: world_ok_def ex_world_def MAX_INSTANCES_def MAX_K_def
        MAX_SERIALIZE_BUFFERS_def list_all_iff)

theorem kmh_add_all_k_smallest_witness:
  "world_ok ex_world \<and>
   kmh_init ex_world 2 1000 42 = (Some (HeapBlock 4), snd (kmh_init ex_world 2 1000 42)) \<and>
   (\<exists>s0 s. deref (snd (kmh_init ex_world 2 1000 42)) (HeapBlock 4) = Some s0 \<and>
      count s0 = 0 \<and> kmh_add_all s0 [100, 200, 100, 0] = Some s \<and>
      k s = 2 \<and> space_size s = 1000 \<and> seed s = 42 \<and> stored s = [320, 312] \<and>
      unat (count s) = 2)"
proof -
  note ok = ex_world_ok
  have "fst (kmh_init ex_world 2 1000 42) = Some (HeapBlock 4)"
    by (simp add: kmh_init_def ex_world_def MAX_K_def MAX_INSTANCES_def Let_def
          sizeof_kvalue_minhash_t_def sizeof_uint32_t_def)
  then have init:
    "kmh_init ex_world 2 1000 42 = (Some (HeapBlock 4), snd (kmh_init ex_world 2 1000 42))"
    by (metis prod.collapse)
  have hs: "map (\<lambda>v. xxh32_hash v 42 mod 1000) [100, 200, 100, 0] = [320, 472, 320, 312]"
    by (simp add: xxh32_hash_def xxh32_rotl_def Let_def XXH_PRIME32_2_def XXH_PRIME32_3_def
          XXH_PRIME32_4_def XXH_PRIME32_5_def)
  have img: "(\<lambda>v. xxh32_hash v 42 mod 1000) ` set [100, 200, 100, 0] = {320, 472, 312}"
    unfolding image_set hs by auto
  have srt: "sorted_list_of_set {320, 472, 312 :: u32} = [312, 320, 472]"
    by (simp add: insort_is_Cons)
  have u2: "unat (2 :: u32) = 2" by simp
  have L: "rev (take (unat (2 :: u32)) (sorted_list_of_set
      ((\<lambda>v. xxh32_hash v 42 mod 1000) ` set [100, 200, 100, 0]))) = [320, 312]"
    unfolding img srt u2 by simp
  have "(2 :: u32) \<noteq> 0" "(1000 :: u32) \<noteq> 0" by simp_all
  from kmh_add_all_k_smallest [OF ok init this, of "[100, 200, 100, 0]"]
  obtain s0 s where r: "deref (snd (kmh_init ex_world 2 1000 42)) (HeapBlock 4) = Some s0"
    "count s0 = 0" "kmh_add_all s0 [100, 200, 100, 0] = Some s"
    "k s = 2" "space_size s = 1000" "seed s = 42"
    "stored s = rev (take (unat (2 :: u32)) (sorted_list_of_set
      ((\<lambda>v. xxh32_hash v 42 mod 1000) ` set [100, 200, 100, 0])))"
    "unat (count s) = min (unat (2 :: u32))
      (card ((\<lambda>v. xxh32_hash v 42 mod 1000) ` set [100, 200, 100, 0]))"
    by blast
  have st: "stored s = [320, 312]" using r(7) unfolding L .
  have "card {320, 472, 312 :: u32} = 3" by simp
  then have cn: "unat (count s) = 2" using r(8) unfolding img u2 by simp
  show ?thesis using ok init r(1-6) st cn by blast
qed

subsection \<open>Distance\<close>

lemma distance_loop_walk:
  "ca \<le> length ah \<Longrightarrow> cb \<le> length bh \<Longrightarrow>
   distance_loop ah bh ca cb ka i j m c =
     Some (case spec_walk (drop i (take ca ah)) (drop j (take cb bh)) (ka - c) of
             (m', c') \<Rightarrow> (m + m', c + c'))"
proof (induction ah bh ca cb ka i j m c rule: distance_loop.induct)
  case (1 ah bh ca cb ka i j m c)
  show ?case
  proof (cases "i < ca \<and> j < cb \<and> c < ka")
    case False
    then have "spec_walk (drop i (take ca ah)) (drop j (take cb bh)) (ka - c) = (0, 0)"
      using 1(4,5)
      by (cases "drop i (take ca ah)"; cases "drop j (take cb bh)"; cases "ka - c") auto
    then show ?thesis using False by (subst distance_loop.simps) auto
  next
    case True
    then have ra: "rd ah i = Some (ah ! i)" and rb: "rd bh j = Some (bh ! j)"
      using 1(4,5) by (simp_all add: rd_def)
    define xs where "xs = drop (Suc i) (take ca ah)"
    define ys where "ys = drop (Suc j) (take cb bh)"
    define n where "n = ka - Suc c"
    have da: "drop i (take ca ah) = ah ! i # xs"
      unfolding xs_def
      using True 1(4) by (metis Cons_nth_drop_Suc length_take min.absorb2 nth_take)
    have db: "drop j (take cb bh) = bh ! j # ys"
      unfolding ys_def
      using True 1(5) by (metis Cons_nth_drop_Suc length_take min.absorb2 nth_take)
    have kc: "ka - c = Suc n" unfolding n_def using True by arith
    show ?thesis
    proof (cases "ah ! i = bh ! j")
      case eq: True
      have "distance_loop ah bh ca cb ka i j m c
            = distance_loop ah bh ca cb ka (Suc i) (Suc j) (Suc m) (Suc c)"
        using True ra rb eq by (subst distance_loop.simps) simp
      also have "\<dots> = Some (case spec_walk xs ys n of (m', c') \<Rightarrow> (Suc m + m', Suc c + c'))"
        unfolding xs_def ys_def n_def by (rule 1(1) [OF True ra rb eq 1(4,5)])
      also have "\<dots> = Some (case spec_walk (ah ! i # xs) (bh ! j # ys) (Suc n) of
                              (m', c') \<Rightarrow> (m + m', c + c'))"
        using eq by (simp split: prod.splits)
      finally show ?thesis unfolding da db kc .
    next
      case ne: False
      show ?thesis
      proof (cases "ah ! i > bh ! j")
        case gt: True
        have "distance_loop ah bh ca cb ka i j m c
              = distance_loop ah bh ca cb ka (Suc i) j m (Suc c)"
          using True ra rb ne gt by (subst distance_loop.simps) simp
        also have "\<dots> = Some (case spec_walk xs (bh ! j # ys) n of
                                (m', c') \<Rightarrow> (m + m', Suc c + c'))"
          unfolding xs_def n_def db [symmetric] by (rule 1(2) [OF True ra rb ne gt 1(4,5)])
        also have "\<dots> = Some (case spec_walk (ah ! i # xs) (bh ! j # ys) (Suc n) of
                                (m', c') \<Rightarrow> (m + m', c + c'))"
          using ne gt by (simp split: prod.splits)
        finally show ?thesis unfolding da db kc .
      next
        case ngt: False
        have "distance_loop ah bh ca cb ka i j m c
              = distance_loop ah bh ca cb ka i (Suc j) m (Suc c)"
          using True ra rb ne ngt by (subst distance_loop.simps) simp
        also have "\<dots> = Some (case spec_walk (ah ! i # xs) ys n of
                                (m', c') \<Rightarrow> (m + m', Suc c + c'))"
          unfolding ys_def n_def da [symmetric] by (rule 1(3) [OF True ra rb ne ngt 1(4,5)])
        also have "\<dots> = Some (case spec_walk (ah ! i # xs) (bh ! j # ys) (Suc n) of
                                (m', c') \<Rightarrow> (m + m', c + c'))"
          using ne ngt by (simp split: prod.splits)
        finally show ?thesis unfolding da db kc .
      qed
    qed
  qed
qed

lemma spec_walk_self: "spec_walk xs xs n = (min n (length xs), min n (length xs))"
proof (induction xs arbitrary: n)
  case Nil
  then show ?case by simp
next
  case (Cons x xs)
  then show ?case by (cases n) simp_all
qed

lemma stored_length: "unat (count s) \<le> length (hashes s) \<Longrightarrow> length (stored s) = unat (count s)"
  by (simp add: stored_def)

lemma sketch_inv_count: "sketch_inv s \<Longrightarrow> unat (count s) \<le> length (hashes s)"
  by (auto simp: sketch_inv_def word_le_nat_alt)

text \<open>
  Claim C7.  For two sketches that satisfy the invariants and agree on \<^verbatim>\<open>k\<close>,
  \<^verbatim>\<open>space_size\<close> and \<^verbatim>\<open>seed\<close>, \<^verbatim>\<open>kmh_distance\<close> is defined and returns the distance
  of the synchronized walk with a budget of \<^verbatim>\<open>k\<close> comparisons: 1 - matches/compared,
  and 1.0 when nothing was compared.  The distance of a non-empty sketch to itself is
  0.0 and the distance between two empty sketches is 1.0.
\<close>

theorem kmh_distance_walk:
  assumes a: "sketch_inv a" and b: "sketch_inv b"
    and compat: "k a = k b \<and> space_size a = space_size b \<and> seed a = seed b"
  shows "kmh_distance a b = Some (Dbl (spec_distance a b)) \<and>
         (count a \<noteq> 0 \<longrightarrow> kmh_distance a a = Some (Dbl 0)) \<and>
         (count a = 0 \<and> count b = 0 \<longrightarrow> kmh_distance a b = Some (Dbl 1))"
proof -
  have ca: "unat (count a) \<le> length (hashes a)" and cb: "unat (count b) \<le> length (hashes b)"
    using a b by (simp_all add: sketch_inv_count)
  have gen: "kmh_distance x y = Some (Dbl (spec_distance x y))"
    if "unat (count x) \<le> length (hashes x)" "unat (count y) \<le> length (hashes y)"
      "\<not> incompatible x y" for x y
    using that distance_loop_walk [OF that(1,2), of "unat (k x)" 0 0 0 0]
    by (auto simp: kmh_distance_def spec_distance_def stored_def split: prod.splits)
  have ab: "kmh_distance a b = Some (Dbl (spec_distance a b))"
    using gen [OF ca cb] compat by (simp add: incompatible_def)
  have aa: "kmh_distance a a = Some (Dbl (spec_distance a a))"
    using gen [OF ca ca] by (simp add: incompatible_def)
  have self: "spec_distance a a = 0" if "count a \<noteq> 0"
  proof -
    have "unat (count a) \<le> unat (k a)" using a by (simp add: sketch_inv_def word_le_nat_alt)
    moreover have "0 < unat (count a)" using that by (simp add: unat_gt_0)
    ultimately obtain n where n: "length (stored a) = n" "0 < n" "n \<le> unat (k a)"
      using stored_length [OF ca] by simp
    then have "spec_walk (stored a) (stored a) (unat (k a)) = (n, n)"
      by (simp add: spec_walk_self min.absorb2)
    then show ?thesis using n(2) by (simp add: spec_distance_def)
  qed
  have empty: "spec_distance a b = 1" if "count a = 0 \<and> count b = 0"
    using that by (simp add: spec_distance_def stored_def)
  show ?thesis using ab aa self empty by simp
qed

lemma ex_sketch_inv: "sketch_inv ex_a" "sketch_inv ex_b" "sketch_inv ex_empty" "sketch_inv ex_small"
  by (simp_all add: sketch_inv_def stored_def ex_a_def ex_b_def ex_empty_def ex_small_def)

theorem kmh_distance_walk_witness:
  "sketch_inv ex_a \<and> sketch_inv ex_b \<and> sketch_inv ex_empty \<and>
   kmh_distance ex_a ex_b = Some (Dbl (1 / 2)) \<and>
   kmh_distance ex_a ex_a = Some (Dbl 0) \<and>
   kmh_distance ex_empty ex_empty = Some (Dbl 1)"
proof -
  have c1: "k ex_a = k ex_b \<and> space_size ex_a = space_size ex_b \<and> seed ex_a = seed ex_b"
    by (simp add: ex_a_def ex_b_def)
  have c2: "k ex_empty = k ex_empty \<and> space_size ex_empty = space_size ex_empty
            \<and> seed ex_empty = seed ex_empty"
    by simp
  have st: "stored ex_a = [799, 217, 202, 85]" "stored ex_b = [764, 217, 202, 198]"
    "unat (k ex_a) = 4"
    by (simp_all add: stored_def ex_a_def ex_b_def)
  have "spec_walk [799, 217, 202, 85] [764, 217, 202, 198] (Suc (Suc (Suc (Suc 0)))) = (2, 4)"
    by simp
  moreover have "(4 :: nat) = Suc (Suc (Suc (Suc 0)))" by simp
  ultimately have "spec_walk [799, 217, 202, 85] [764, 217, 202, 198] 4 = (2, 4)"
    by (simp only:)
  then have d: "spec_distance ex_a ex_b = 1 / 2"
    unfolding spec_distance_def st by simp
  have n: "count ex_a \<noteq> 0" "count ex_empty = 0" by (simp_all add: ex_a_def ex_empty_def)
  note A = kmh_distance_walk [OF ex_sketch_inv(1) ex_sketch_inv(2) c1]
  note B = kmh_distance_walk [OF ex_sketch_inv(3) ex_sketch_inv(3) c2]
  have 1: "kmh_distance ex_a ex_b = Some (Dbl (1 / 2))" using A unfolding d by blast
  have 2: "kmh_distance ex_a ex_a = Some (Dbl 0)" using A n(1) by blast
  have 3: "kmh_distance ex_empty ex_empty = Some (Dbl 1)" using B n(2) by blast
  show ?thesis using ex_sketch_inv(1-3) 1 2 3 by blast
qed

subsection \<open>Merging\<close>

lemma tail_asc_neg: "i < 0 \<Longrightarrow> tail_asc xs i = []"
  by (simp add: tail_asc_def)

lemma tail_asc_step:
  assumes "0 \<le> i" and "i < int (length xs)"
  shows "tail_asc xs i = xs ! nat i # tail_asc xs (i - 1)"
proof -
  have "nat (i + 1) = Suc (nat i)" using assms by simp
  moreover have "nat (i - 1 + 1) = nat i" by simp
  moreover have "nat i < length xs" using assms by simp
  ultimately show ?thesis by (simp add: tail_asc_def take_Suc_conv_app_nth)
qed

lemma umerge_Nil2 [simp]: "umerge xs [] = xs"
  by (cases xs) simp_all

lemma merge_step_umerge:
  assumes g: "0 \<le> i \<or> 0 \<le> j" and i: "i < int (length ah)" and j: "j < int (length bh)"
  shows "\<exists>h i' j'. merge_step ah bh i j = Some (h, i', j') \<and>
           umerge (tail_asc ah i) (tail_asc bh j) = h # umerge (tail_asc ah i') (tail_asc bh j') \<and>
           i' < int (length ah) \<and> j' < int (length bh)"
proof (cases "i < 0")
  case True
  then have j0: "0 \<le> j" using g by simp
  then have "rd bh (nat j) = Some (bh ! nat j)" using j by (simp add: rd_def)
  then show ?thesis
    using True i j tail_asc_step [OF j0 j] by (simp add: merge_step_def tail_asc_neg)
next
  case i0: False
  then have i0': "0 \<le> i" by simp
  have ra: "rd ah (nat i) = Some (ah ! nat i)" using i0 i by (simp add: rd_def)
  show ?thesis
  proof (cases "j < 0")
    case True
    then show ?thesis
      using i0 i j ra tail_asc_step [OF i0' i] by (simp add: merge_step_def tail_asc_neg)
  next
    case j0: False
    then have j0': "0 \<le> j" by simp
    have rb: "rd bh (nat j) = Some (bh ! nat j)" using j0 j by (simp add: rd_def)
    show ?thesis
      using i0 j0 i j ra rb tail_asc_step [OF i0' i] tail_asc_step [OF j0' j]
      by (auto simp: merge_step_def)
  qed
qed

lemma push_hash_eq:
  "unat (count res) < length (hashes res) \<Longrightarrow>
   push_hash res h = Some (res\<lparr>hashes := (hashes res)[unat (count res) := h],
                               count := count res + 1\<rparr>)"
  by (simp add: push_hash_def wr_def)

lemma merge_loop_umerge:
  "i < int (length ah) \<Longrightarrow> j < int (length bh) \<Longrightarrow> unat (k res) \<le> length (hashes res) \<Longrightarrow>
   merge_loop ah bh res i j =
     Some (res\<lparr>hashes := take (unat (count res)) (hashes res)
                   @ take (unat (k res) - unat (count res))
                       (umerge (tail_asc ah i) (tail_asc bh j))
                   @ drop (unat (count res)
                           + length (take (unat (k res) - unat (count res))
                               (umerge (tail_asc ah i) (tail_asc bh j)))) (hashes res),
                count := count res
                   + of_nat (length (take (unat (k res) - unat (count res))
                               (umerge (tail_asc ah i) (tail_asc bh j))))\<rparr>)"
proof (induction ah bh res i j rule: merge_loop.induct)
  case (1 ah bh res i j)
  define c where "c = unat (count res)"
  define K where "K = unat (k res)"
  define hs where "hs = hashes res"
  show ?case
  proof (cases "count res < k res \<and> (0 \<le> i \<or> 0 \<le> j)")
    case False
    have "take (K - c) (umerge (tail_asc ah i) (tail_asc bh j)) = []"
    proof (cases "count res < k res")
      case True
      then have "i < 0" "j < 0" using False by auto
      then show ?thesis by (simp add: tail_asc_neg)
    next
      case False
      then have "K \<le> c" by (simp add: K_def c_def word_less_nat_alt)
      then show ?thesis by simp
    qed
    then have Z0: "take (unat (k res) - unat (count res))
                     (umerge (tail_asc ah i) (tail_asc bh j)) = []"
      by (simp only: c_def K_def)
    have "merge_loop ah bh res i j = Some res"
      using False by (subst merge_loop.simps) (simp only: if_False)
    then show ?thesis unfolding Z0 by simp
  next
    case True
    then have cK: "c < K" by (simp add: c_def K_def word_less_nat_alt)
    have g: "0 \<le> i \<or> 0 \<le> j" using True by simp
    from merge_step_umerge [OF g 1(2,3)] obtain h i' j' where
      ms: "merge_step ah bh i j = Some (h, i', j')"
      and um: "umerge (tail_asc ah i) (tail_asc bh j)
                 = h # umerge (tail_asc ah i') (tail_asc bh j')"
      and i': "i' < int (length ah)" and j': "j' < int (length bh)"
      by blast
    have clen: "c < length hs" using cK 1(4) by (simp add: K_def hs_def)
    define res' where "res' = res\<lparr>hashes := hs[c := h], count := count res + 1\<rparr>"
    have ph: "push_hash res h = Some res'"
      using push_hash_eq [of res h] clen by (simp add: res'_def c_def hs_def)
    have "count res < k res" using True by simp
    then have c': "unat (count res') = Suc c"
      by (simp add: res'_def c_def unat_inc)
    have K': "unat (k res') = K" by (simp add: res'_def K_def)
    have hs': "hashes res' = hs[c := h]" by (simp add: res'_def)
    have cap': "unat (k res') \<le> length (hashes res')"
      using 1(4) by (simp add: res'_def hs_def)
    define Z' where "Z' = take (K - Suc c) (umerge (tail_asc ah i') (tail_asc bh j'))"
    have Z: "take (K - c) (umerge (tail_asc ah i) (tail_asc bh j)) = h # Z'"
      using cK by (simp add: um Z'_def take_Cons')
    have IH: "merge_loop ah bh res' i' j' =
        Some (res'\<lparr>hashes := take (Suc c) (hs[c := h]) @ Z'
                       @ drop (Suc c + length Z') (hs[c := h]),
                    count := count res' + of_nat (length Z')\<rparr>)"
      using 1(1) [OF True ms _ _ ph i' j' cap'] unfolding c' K' hs' Z'_def by simp
    have t1: "take (Suc c) (hs[c := h]) = take c hs @ [h]"
      using clen by (simp add: take_Suc_conv_app_nth)
    have t2: "drop (Suc c + length Z') (hs[c := h]) = drop (Suc c + length Z') hs"
      by simp
    have "merge_loop ah bh res i j = merge_loop ah bh res' i' j'"
      using True ms ph by (subst merge_loop.simps) simp
    also have "\<dots> = Some (res\<lparr>hashes := take c hs @ (h # Z') @ drop (c + length (h # Z')) hs,
                              count := count res + of_nat (length (h # Z'))\<rparr>)"
      unfolding IH t1 t2 by (simp add: res'_def)
    finally show ?thesis unfolding Z [symmetric] c_def K_def hs_def .
  qed
qed

lemma set_umerge: "set (umerge xs ys) = set xs \<union> set ys"
  by (induction xs ys rule: umerge.induct) auto

lemma sorted_umerge:
  "sorted_wrt (<) xs \<Longrightarrow> sorted_wrt (<) ys \<Longrightarrow> sorted_wrt (<) (umerge xs ys)"
  by (induction xs ys rule: umerge.induct) (auto simp: set_umerge)

lemma umerge_sorted_list:
  assumes "sorted_wrt (<) xs" and "sorted_wrt (<) ys"
  shows "umerge xs ys = sorted_list_of_set (set xs \<union> set ys)"
proof -
  have "sorted_wrt (<) (umerge xs ys)" using assms by (rule sorted_umerge)
  then have "sorted (umerge xs ys)" "distinct (umerge xs ys)"
    by (simp_all add: strict_sorted_iff)
  then have "sorted_list_of_set (set (umerge xs ys)) = umerge xs ys"
    by (rule sorted_list_of_set.idem_if_sorted_distinct)
  then show ?thesis by (simp add: set_umerge)
qed

lemma reverse_loop_nth:
  "cnt \<le> length hs \<Longrightarrow>
   \<exists>r. reverse_loop hs cnt idx = Some r \<and> length r = length hs \<and>
       (\<forall>p < length hs. r ! p = (if idx \<le> p \<and> p < cnt - idx then hs ! (cnt - 1 - p) else hs ! p))"
proof (induction hs cnt idx rule: reverse_loop.induct)
  case (1 hs cnt idx)
  show ?case
  proof (cases "idx < cnt div 2")
    case False
    have "reverse_loop hs cnt idx = Some hs"
      using False by (subst reverse_loop.simps) simp
    moreover have "\<And>p. idx \<le> p \<Longrightarrow> p < cnt - idx \<Longrightarrow> cnt - 1 - p = p"
      using False by arith
    ultimately show ?thesis by auto
  next
    case True
    define q where "q = cnt - 1 - idx"
    have iq: "idx < q" "q < cnt" "q < length hs" "idx < length hs"
      using True 1(2) unfolding q_def by arith+
    define hs' where "hs' = hs[idx := hs ! q, q := hs ! idx]"
    have r1: "rd hs idx = Some (hs ! idx)" and r2: "rd hs (cnt - 1 - idx) = Some (hs ! q)"
      using iq by (simp_all add: rd_def q_def)
    have len': "cnt \<le> length hs'" using 1(2) by (simp add: hs'_def)
    from 1(1) [OF True r1 r2] len' obtain r where
      r: "reverse_loop hs' cnt (Suc idx) = Some r" "length r = length hs'"
        "\<forall>p < length hs'. r ! p = (if Suc idx \<le> p \<and> p < cnt - Suc idx
                                    then hs' ! (cnt - 1 - p) else hs' ! p)"
      unfolding hs'_def q_def by blast
    have step: "reverse_loop hs cnt idx = Some r"
      using True r1 r2 r(1) unfolding hs'_def q_def by (subst reverse_loop.simps) simp
    have "r ! p = (if idx \<le> p \<and> p < cnt - idx then hs ! (cnt - 1 - p) else hs ! p)"
      if p: "p < length hs" for p
    proof -
      have rp: "r ! p = (if Suc idx \<le> p \<and> p < cnt - Suc idx
                         then hs' ! (cnt - 1 - p) else hs' ! p)"
        using r(3) p by (simp add: hs'_def)
      have h_idx: "hs' ! idx = hs ! q" and h_q: "hs' ! q = hs ! idx"
        and h_other: "\<And>x. x \<noteq> idx \<Longrightarrow> x \<noteq> q \<Longrightarrow> hs' ! x = hs ! x"
        using iq by (simp_all add: hs'_def)
      consider "p = idx" | "p = q" | "Suc idx \<le> p" "p < q" | "p < idx" | "q < p"
        by arith
      then show ?thesis
      proof cases
        case 1
        have n: "\<not> (Suc idx \<le> p \<and> p < cnt - Suc idx)" using 1 by simp
        have y: "idx \<le> p \<and> p < cnt - idx" using 1 iq unfolding q_def by arith
        have e: "cnt - 1 - p = q" using 1 by (simp add: q_def)
        show ?thesis unfolding rp if_not_P [OF n] if_P [OF y] e using h_idx 1 by simp
      next
        case 2
        have n: "\<not> (Suc idx \<le> p \<and> p < cnt - Suc idx)" using 2 unfolding q_def by arith
        have y: "idx \<le> p \<and> p < cnt - idx" using 2 iq unfolding q_def by arith
        have e: "cnt - 1 - p = idx" using 2 iq unfolding q_def by arith
        show ?thesis unfolding rp if_not_P [OF n] if_P [OF y] e using h_q 2 by simp
      next
        case 3
        then have m: "Suc idx \<le> p \<and> p < cnt - Suc idx" and y: "idx \<le> p \<and> p < cnt - idx"
          unfolding q_def by arith+
        have "cnt - 1 - p \<noteq> idx" "cnt - 1 - p \<noteq> q" using 3 iq unfolding q_def by arith+
        then have "hs' ! (cnt - 1 - p) = hs ! (cnt - 1 - p)" by (rule h_other)
        then show ?thesis unfolding rp if_P [OF m] if_P [OF y] .
      next
        case 4
        then have n: "\<not> (Suc idx \<le> p \<and> p < cnt - Suc idx)"
          and y: "\<not> (idx \<le> p \<and> p < cnt - idx)"
          by simp_all
        have "hs' ! p = hs ! p" using 4 iq by (intro h_other) simp_all
        then show ?thesis unfolding rp if_not_P [OF n] if_not_P [OF y] .
      next
        case 5
        then have n: "\<not> (Suc idx \<le> p \<and> p < cnt - Suc idx)"
          and y: "\<not> (idx \<le> p \<and> p < cnt - idx)"
          unfolding q_def by arith+
        have "hs' ! p = hs ! p" using 5 iq by (intro h_other) simp_all
        then show ?thesis unfolding rp if_not_P [OF n] if_not_P [OF y] .
      qed
    qed
    then show ?thesis using step r(2) by (simp add: hs'_def)
  qed
qed

lemma reverse_loop_rev:
  assumes "cnt \<le> length hs"
  shows "reverse_loop hs cnt 0 = Some (rev (take cnt hs) @ drop cnt hs)"
proof -
  from reverse_loop_nth [OF assms, of 0] obtain r where
    r: "reverse_loop hs cnt 0 = Some r" "length r = length hs"
      "\<forall>p < length hs. r ! p = (if p < cnt then hs ! (cnt - 1 - p) else hs ! p)"
    by auto
  have "r = rev (take cnt hs) @ drop cnt hs"
  proof (rule nth_equalityI)
    show "length r = length (rev (take cnt hs) @ drop cnt hs)" using r(2) assms by simp
  next
    fix p assume "p < length r"
    then have p: "p < length hs" using r(2) by simp
    show "r ! p = (rev (take cnt hs) @ drop cnt hs) ! p"
    proof (cases "p < cnt")
      case True
      then have "cnt - Suc p < cnt" by simp
      then show ?thesis using r(3) p True assms by (simp add: nth_append rev_nth)
    next
      case False
      then show ?thesis using r(3) p assms by (simp add: nth_append)
    qed
  qed
  then show ?thesis using r(1) by simp
qed

lemma unat_of_nat_small: "n \<le> unat (w :: u32) \<Longrightarrow> unat (of_nat n :: u32) = n"
proof -
  assume "n \<le> unat w"
  moreover have "unat w < 2 ^ 32" using unsigned_less [of w, where ?'a = nat] by simp
  ultimately have "n < 2 ^ 32" by simp
  then show ?thesis by (simp add: unsigned_of_nat take_bit_nat_eq_self)
qed

lemma sint_count_pred:
  assumes "unat (c :: u32) \<le> 2 ^ 31"
  shows "sint (c - 1) = int (unat c) - 1"
proof (cases "c = 0")
  case True
  then show ?thesis by simp
next
  case False
  define n where "n = unat c"
  have u: "unat (c - 1) = n - 1" using False by (simp add: unat_minus_one n_def)
  have pos: "0 < n" using False by (simp add: unat_gt_0 n_def)
  have "uint (c - 1) = int (unat (c - 1))" by simp
  also have "\<dots> = int n - 1" unfolding u using pos by (simp add: of_nat_diff)
  finally have ui: "uint (c - 1) = int n - 1" .
  have "n \<le> 2 ^ 31" using assms by (simp add: n_def)
  then have "int n \<le> 2 ^ 31" by (metis of_nat_le_iff of_nat_numeral of_nat_power)
  then have "int n - 1 < 2 ^ 31" "- (2 ^ 31) \<le> int n - 1" using pos by linarith+
  then have "signed_take_bit 31 (int n - 1) = int n - 1"
    by (rule signed_take_bit_int_eq_self [rotated])
  then have "sint (c - 1) = int n - 1" unfolding sint_uint ui by simp
  then show ?thesis by (simp only: n_def)
qed

lemma sint_count_pred_less:
  assumes "unat (c :: u32) \<le> 2 ^ 31" and "unat c \<le> n"
  shows "sint (c - 1) < int n"
proof -
  have "int (unat c) \<le> int n" using assms(2) by (rule iffD2 [OF of_nat_le_iff])
  then show ?thesis unfolding sint_count_pred [OF assms(1)] by linarith
qed

lemma tail_asc_stored:
  assumes "unat (count s) \<le> 2 ^ 31"
  shows "tail_asc (hashes s) (sint (count s - 1)) = rev (stored s)"
  using sint_count_pred [OF assms] by (simp add: tail_asc_def stored_def)

lemma store_deref:
  "deref w p \<noteq> None \<Longrightarrow> deref (store w p v) q = (if q = p then Some v else deref w q)"
  by (cases p; cases q) (auto simp: deref_def store_def nth_list_update split: if_splits)

text \<open>
  Claim C3 (amended: both counts are at most \<open>2\<^sup>3\<^sup>1\<close>, so that \<^verbatim>\<open>count - 1\<close> is a valid
  \<^verbatim>\<open>int\<close> index, and \<^verbatim>\<open>kmh_init\<close> obtains storage for the result).  For two live sketches
  that satisfy the invariants and agree on \<^verbatim>\<open>k\<close>, \<^verbatim>\<open>space_size\<close> and \<^verbatim>\<open>seed\<close>,
  \<^verbatim>\<open>kmh_merge\<close> is defined and returns a pointer that was not live before, so it differs
  from both inputs; every sketch that was live, the inputs among them, is unchanged; the
  result has the same \<^verbatim>\<open>k\<close>, \<^verbatim>\<open>space_size\<close> and \<^verbatim>\<open>seed\<close>, it satisfies the
  invariants, and its stored hashes are, in descending order, the \<open>min(k, n)\<close> smallest
  elements of the union of the inputs' stored hashes.
\<close>

theorem kmh_merge_k_smallest:
  assumes ok: "world_ok w"
    and a: "deref w pa = Some a" and b: "deref w pb = Some b"
    and ia: "sketch_inv a" and ib: "sketch_inv b"
    and compat: "k a = k b \<and> space_size a = space_size b \<and> seed a = seed b"
    and small: "unat (count a) \<le> 2 ^ 31 \<and> unat (count b) \<le> 2 ^ 31"
    and alloc: "fst (kmh_init w (k a) (space_size a) (seed a)) \<noteq> None"
  shows "\<exists>r w' res. kmh_merge w pa pb = Some (Some r, w') \<and>
           deref w r = None \<and> r \<noteq> pa \<and> r \<noteq> pb \<and>
           deref w' pa = Some a \<and> deref w' pb = Some b \<and>
           (\<forall>q. deref w q \<noteq> None \<longrightarrow> deref w' q = deref w q) \<and>
           deref w' r = Some res \<and>
           k res = k a \<and> space_size res = space_size a \<and> seed res = seed a \<and>
           stored res = rev (take (unat (k a))
                               (sorted_list_of_set (set (stored a) \<union> set (stored b)))) \<and>
           sketch_inv res"
proof -
  define K where "K = unat (k a)"
  define L where "L = sorted_list_of_set (set (stored a) \<union> set (stored b))"
  define Z where "Z = take K L"
  obtain r w1 where init: "kmh_init w (k a) (space_size a) (seed a) = (Some r, w1)"
    using alloc by (cases "kmh_init w (k a) (space_size a) (seed a)") auto
  from kmh_init_Some [OF ok init] obtain cells where
    r1: "deref w1 r = Some \<lparr>k = k a, count = 0, space_size = space_size a, seed = seed a,
                            hashes = cells\<rparr>"
    and cap: "K \<le> length cells"
    and fresh: "deref w r = None"
    and frame: "\<forall>q. deref w q \<noteq> None \<longrightarrow> deref w1 q = deref w q"
    unfolding K_def by blast
  define res0 where
    "res0 = \<lparr>k = k a, count = 0, space_size = space_size a, seed = seed a, hashes = cells\<rparr>"
  have a1: "deref w1 pa = Some a" and b1: "deref w1 pb = Some b"
    using frame a b by simp_all
  have ne: "r \<noteq> pa" "r \<noteq> pb" using fresh a b by auto
  have ca: "unat (count a) \<le> length (hashes a)" and cb: "unat (count b) \<le> length (hashes b)"
    using ia ib by (simp_all add: sketch_inv_count)
  have ta: "tail_asc (hashes a) (sint (count a - 1)) = rev (stored a)"
    and tb: "tail_asc (hashes b) (sint (count b - 1)) = rev (stored b)"
    using small by (simp_all add: tail_asc_stored)
  have ja: "sint (count a - 1) < int (length (hashes a))"
    and jb: "sint (count b - 1) < int (length (hashes b))"
    using small ca cb by (simp_all add: sint_count_pred_less)
  have sa: "sorted_wrt (<) (rev (stored a))" and sb: "sorted_wrt (<) (rev (stored b))"
    using ia ib by (simp_all add: sketch_inv_def sorted_wrt_rev)
  have um: "umerge (rev (stored a)) (rev (stored b)) = L"
    using umerge_sorted_list [OF sa sb] by (simp add: L_def)
  have lenZ: "length Z \<le> K" by (simp add: Z_def)
  have uZ: "unat (of_nat (length Z) :: u32) = length Z"
    using lenZ by (simp add: unat_of_nat_small K_def)
  define res1 where
    "res1 = res0\<lparr>hashes := Z @ drop (length Z) cells, count := of_nat (length Z)\<rparr>"
  have ml: "merge_loop (hashes a) (hashes b) res0 (sint (count a - 1)) (sint (count b - 1))
              = Some res1"
    using merge_loop_umerge [OF ja jb, of res0] cap
    unfolding ta tb um by (simp add: res0_def res1_def K_def Z_def)
  have h1: "hashes res1 = Z @ drop (length Z) cells" and c1: "unat (count res1) = length Z"
    using uZ by (simp_all add: res1_def)
  have len1: "length Z \<le> length (hashes res1)" by (simp add: h1)
  define cells' where "cells' = rev Z @ drop (length Z) cells"
  have rl: "reverse_loop (hashes res1) (unat (count res1)) 0 = Some cells'"
    unfolding c1 using reverse_loop_rev [OF len1] by (simp add: h1 cells'_def)
  define res where "res = res1\<lparr>hashes := cells'\<rparr>"
  define w' where "w' = store w1 r res"
  have live: "deref w1 r \<noteq> None" using r1 by simp
  have merge: "kmh_merge w pa pb = Some (Some r, w')"
    using a b compat init a1 b1 r1 ml rl
    by (simp add: kmh_merge_def incompatible_def res0_def res_def w'_def)
  have d': "\<And>q. deref w' q = (if q = r then Some res else deref w1 q)"
    unfolding w'_def by (rule store_deref [OF live])
  have frame': "\<forall>q. deref w q \<noteq> None \<longrightarrow> deref w' q = deref w q"
    using frame fresh d' by auto
  have st: "stored res = rev Z"
    using uZ by (simp add: stored_def res_def res1_def cells'_def)
  have sL: "sorted_wrt (<) L" by (simp add: L_def)
  then have "sorted_wrt (<) Z" unfolding Z_def by (rule sorted_wrt_take)
  then have desc: "sorted_wrt (>) (stored res)" by (simp add: st sorted_wrt_rev)
  have "\<And>h. h \<in> set Z \<Longrightarrow> h < space_size a"
  proof -
    fix h assume "h \<in> set Z"
    then have "h \<in> set L" unfolding Z_def by (rule in_set_takeD)
    then have "h \<in> set (stored a) \<union> set (stored b)" by (simp add: L_def)
    then show "h < space_size a"
      using ia ib compat by (auto simp: sketch_inv_def list_all_iff)
  qed
  moreover have "space_size res = space_size a" by (simp add: res_def res1_def res0_def)
  ultimately have below: "list_all (\<lambda>h. h < space_size res) (stored res)"
    unfolding st by (simp add: list_all_iff)
  have "count res \<le> k res"
    using lenZ uZ by (simp add: word_le_nat_alt res_def res1_def res0_def K_def)
  moreover have "unat (k res) \<le> length (hashes res)"
    using lenZ cap by (simp add: res_def res1_def res0_def cells'_def K_def)
  ultimately have inv: "sketch_inv res" using desc below by (simp add: sketch_inv_def)
  have fields: "k res = k a" "space_size res = space_size a" "seed res = seed a"
    by (simp_all add: res_def res1_def res0_def)
  show ?thesis
    using merge fresh ne a b frame' d' fields st inv unfolding Z_def L_def K_def
    by auto
qed

lemma sorted_desc_of_nat:
  assumes "n \<le> 2 ^ 32"
  shows "sorted_wrt (>) (map (of_nat :: nat \<Rightarrow> u32) (rev [0..<n]))"
proof -
  have "sorted_wrt (<) [0..<n]" by simp
  then have "sorted_wrt (\<lambda>x y. (of_nat x :: u32) < of_nat y) [0..<n]"
  proof (rule sorted_wrt_mono_rel [rotated])
    fix x y assume "x \<in> set [0..<n]" "y \<in> set [0..<n]" "x < y"
    then have "x < 2 ^ 32" "y < 2 ^ 32" using assms by simp_all
    then show "(of_nat x :: u32) < of_nat y"
      using \<open>x < y\<close> by (simp add: word_of_nat_less_iff take_bit_nat_eq_self)
  qed
  then show ?thesis by (simp add: sorted_wrt_map sorted_wrt_rev)
qed

lemma ex_big_inv: "sketch_inv ex_big"
proof -
  have len: "length ex_big_cells = 2147483649" by (simp add: ex_big_cells_def)
  have u: "unat (2147483649 :: u32) = 2147483649" by simp
  have st: "stored ex_big = ex_big_cells" by (simp add: stored_def ex_big_def u len)
  have "sorted_wrt (>) ex_big_cells"
    unfolding ex_big_cells_def by (rule sorted_desc_of_nat) simp
  moreover have "list_all (\<lambda>h. h < 4294967295) ex_big_cells"
  proof -
    have "(of_nat x :: u32) < 4294967295" if "x < 2147483649" for x
    proof -
      have "unat (of_nat x :: u32) = x"
        using that by (simp add: unsigned_of_nat take_bit_nat_eq_self)
      then show ?thesis using that by (simp add: word_less_nat_alt)
    qed
    then show ?thesis by (auto simp: list_all_iff ex_big_cells_def)
  qed
  ultimately show ?thesis
    unfolding sketch_inv_def st by (simp add: ex_big_def len)
qed

lemma ex_big_merge:
  "kmh_merge ex_big_world (HeapBlock 0) (HeapBlock 0) \<noteq> None \<and>
   fst (the (kmh_merge ex_big_world (HeapBlock 0) (HeapBlock 0))) = Some (HeapBlock 1) \<and>
   map_option count
     (deref (snd (the (kmh_merge ex_big_world (HeapBlock 0) (HeapBlock 0)))) (HeapBlock 1))
     = Some 0"
proof -
  define cells0 where "cells0 = map (junk ex_big_world) [0..<unat (k ex_big)]"
  define res0 where
    "res0 = \<lparr>k = k ex_big, count = 0, space_size = space_size ex_big, seed = seed ex_big,
             hashes = cells0\<rparr>"
  define w1 where
    "w1 = ex_big_world\<lparr>heap := heap ex_big_world @ [Some res0],
            heap_left := heap_left ex_big_world
              - (sizeof_kvalue_minhash_t + unat (k ex_big) * sizeof_uint32_t)\<rparr>"
  have d0: "deref ex_big_world (HeapBlock 0) = Some ex_big"
    by (simp add: deref_def ex_big_world_def ex_world_def)
  have "\<not> unat (k ex_big) \<le> MAX_K" by (simp add: ex_big_def MAX_K_def)
  moreover have "sizeof_kvalue_minhash_t + unat (k ex_big) * sizeof_uint32_t
      \<le> heap_left ex_big_world"
    by (simp add: ex_big_def ex_big_world_def sizeof_kvalue_minhash_t_def sizeof_uint32_t_def)
  moreover have "length (heap ex_big_world) = 1" by (simp add: ex_big_world_def)
  ultimately have init:
    "kmh_init ex_big_world (k ex_big) (space_size ex_big) (seed ex_big)
       = (Some (HeapBlock 1), w1)"
    unfolding kmh_init_def Let_def w1_def res0_def cells0_def by simp
  have hp: "heap w1 = [Some ex_big, Some res0]" by (simp add: w1_def ex_big_world_def)
  have d1: "deref w1 (HeapBlock 0) = Some ex_big" "deref w1 (HeapBlock 1) = Some res0"
    by (simp_all add: deref_def hp)
  have i: "sint (count ex_big - 1) = - 2147483648" by (simp add: ex_big_def)
  have ml: "merge_loop (hashes ex_big) (hashes ex_big) res0
              (sint (count ex_big - 1)) (sint (count ex_big - 1)) = Some res0"
    unfolding i by (subst merge_loop.simps) simp
  have rl: "reverse_loop (hashes res0) (unat (count res0)) 0 = Some (hashes res0)"
    by (subst reverse_loop.simps) (simp add: res0_def)
  have m: "kmh_merge ex_big_world (HeapBlock 0) (HeapBlock 0)
             = Some (Some (HeapBlock 1), store w1 (HeapBlock 1) res0)"
    using d0 init d1 ml rl by (simp add: kmh_merge_def incompatible_def)
  have "deref (store w1 (HeapBlock 1) res0) (HeapBlock 1) = Some res0"
    using store_deref [of w1 "HeapBlock 1" res0 "HeapBlock 1"] d1(2) by simp
  then show ?thesis unfolding m by (simp add: res0_def)
qed

text \<open>
  Two inputs on which \<^verbatim>\<open>kmh_merge\<close> does not return the merged sketch.  When neither
  the pool nor the heap has storage, it returns \<^verbatim>\<open>NULL\<close>.  When a count exceeds
  \<open>2\<^sup>3\<^sup>1\<close>, the index \<^verbatim>\<open>int i = a->count - 1\<close> is negative, the loop takes that input for
  exhausted, and merging the sketch of \<open>2\<^sup>3\<^sup>1 + 1\<close> hashes with itself returns an empty
  sketch.
\<close>

theorem kmh_merge_counterexample:
  "sketch_inv ex_a \<and> sketch_inv ex_b \<and>
   deref ex_world_no_heap (HeapBlock 0) = Some ex_a \<and>
   deref ex_world_no_heap (HeapBlock 1) = Some ex_b \<and>
   kmh_merge ex_world_no_heap (HeapBlock 0) (HeapBlock 1) = Some (None, ex_world_no_heap) \<and>
   sketch_inv ex_big \<and> count ex_big = 2147483649 \<and>
   deref ex_big_world (HeapBlock 0) = Some ex_big \<and>
   kmh_merge ex_big_world (HeapBlock 0) (HeapBlock 0) \<noteq> None \<and>
   fst (the (kmh_merge ex_big_world (HeapBlock 0) (HeapBlock 0))) = Some (HeapBlock 1) \<and>
   map_option count
     (deref (snd (the (kmh_merge ex_big_world (HeapBlock 0) (HeapBlock 0)))) (HeapBlock 1))
     = Some 0"
proof -
  have d: "deref ex_world_no_heap (HeapBlock 0) = Some ex_a"
    "deref ex_world_no_heap (HeapBlock 1) = Some ex_b"
    by (simp_all add: deref_def ex_world_no_heap_def ex_world_def)
  have "kmh_init ex_world_no_heap (k ex_a) (space_size ex_a) (seed ex_a)
          = (None, ex_world_no_heap)"
    by (simp add: kmh_init_def ex_world_no_heap_def ex_world_def ex_a_def MAX_K_def
          MAX_INSTANCES_def Let_def sizeof_kvalue_minhash_t_def sizeof_uint32_t_def)
  then have m: "kmh_merge ex_world_no_heap (HeapBlock 0) (HeapBlock 1)
                  = Some (None, ex_world_no_heap)"
    using d by (simp add: kmh_merge_def incompatible_def ex_a_def ex_b_def)
  have d0: "deref ex_big_world (HeapBlock 0) = Some ex_big"
    by (simp add: deref_def ex_big_world_def ex_world_def)
  have c: "count ex_big = 2147483649" by (simp add: ex_big_def)
  show ?thesis
    using ex_sketch_inv(1,2) d m ex_big_inv c d0 ex_big_merge by (simp only: simp_thms)
qed

theorem kmh_merge_k_smallest_witness:
  "world_ok ex_world \<and> deref ex_world (HeapBlock 0) = Some ex_a \<and>
   deref ex_world (HeapBlock 1) = Some ex_b \<and> sketch_inv ex_a \<and> sketch_inv ex_b \<and>
   (\<exists>r w' res. kmh_merge ex_world (HeapBlock 0) (HeapBlock 1) = Some (Some r, w') \<and>
      deref ex_world r = None \<and> r \<noteq> HeapBlock 0 \<and> r \<noteq> HeapBlock 1 \<and>
      deref w' (HeapBlock 0) = Some ex_a \<and> deref w' (HeapBlock 1) = Some ex_b \<and>
      deref w' r = Some res \<and> k res = 4 \<and> space_size res = 1000 \<and> seed res = 42 \<and>
      stored res = [217, 202, 198, 85] \<and> sketch_inv res)"
proof -
  have a: "deref ex_world (HeapBlock 0) = Some ex_a"
    and b: "deref ex_world (HeapBlock 1) = Some ex_b"
    by (simp_all add: deref_def ex_world_def)
  have compat: "k ex_a = k ex_b \<and> space_size ex_a = space_size ex_b \<and> seed ex_a = seed ex_b"
    by (simp add: ex_a_def ex_b_def)
  have small: "unat (count ex_a) \<le> 2 ^ 31 \<and> unat (count ex_b) \<le> 2 ^ 31"
    by (simp add: ex_a_def ex_b_def)
  have alloc: "fst (kmh_init ex_world (k ex_a) (space_size ex_a) (seed ex_a)) \<noteq> None"
    by (simp add: kmh_init_def ex_world_def ex_a_def MAX_K_def MAX_INSTANCES_def Let_def
          sizeof_kvalue_minhash_t_def sizeof_uint32_t_def)
  have st: "stored ex_a = [799, 217, 202, 85]" "stored ex_b = [764, 217, 202, 198]"
    by (simp_all add: stored_def ex_a_def ex_b_def)
  have srt: "sorted_list_of_set (set [799, 217, 202, 85] \<union> set [764, 217, 202, 198 :: u32])
               = [85, 198, 202, 217, 764, 799]"
    by (simp add: insort_is_Cons insert_commute)
  have u: "unat (k ex_a) = 4" "k ex_a = 4" "space_size ex_a = 1000" "seed ex_a = 42"
    by (simp_all add: ex_a_def)
  have L: "rev (take (unat (k ex_a))
                 (sorted_list_of_set (set (stored ex_a) \<union> set (stored ex_b))))
             = [217, 202, 198, 85]"
    unfolding st srt u by simp
  from kmh_merge_k_smallest [OF ex_world_ok a b ex_sketch_inv(1) ex_sketch_inv(2) compat small alloc]
  obtain r w' res where r: "kmh_merge ex_world (HeapBlock 0) (HeapBlock 1) = Some (Some r, w')"
    "deref ex_world r = None" "r \<noteq> HeapBlock 0" "r \<noteq> HeapBlock 1"
    "deref w' (HeapBlock 0) = Some ex_a" "deref w' (HeapBlock 1) = Some ex_b"
    "deref w' r = Some res" "k res = k ex_a" "space_size res = space_size ex_a"
    "seed res = seed ex_a"
    "stored res = rev (take (unat (k ex_a))
                 (sorted_list_of_set (set (stored ex_a) \<union> set (stored ex_b))))"
    "sketch_inv res"
    by blast
  have "stored res = [217, 202, 198, 85]" using r(11) unfolding L .
  moreover have "k res = 4" "space_size res = 1000" "seed res = 42"
    using r(8-10) u by simp_all
  ultimately show ?thesis
    using ex_world_ok a b ex_sketch_inv(1,2) r(1-7) r(12) by blast
qed

lemma merge_step_comm:
  assumes "0 \<le> i \<or> 0 \<le> j"
  shows "merge_step ah bh i j = None \<longleftrightarrow> merge_step bh ah j i = None"
    and "merge_step ah bh i j = Some (h, i', j') \<longleftrightarrow> merge_step bh ah j i = Some (h, j', i')"
  using assms by (auto simp: merge_step_def split: option.splits)

lemma merge_loop_comm: "merge_loop ah bh res i j = merge_loop bh ah res j i"
proof (induction ah bh res i j rule: merge_loop.induct)
  case (1 ah bh res i j)
  show ?case
  proof (cases "count res < k res \<and> (0 \<le> i \<or> 0 \<le> j)")
    case False
    then show ?thesis
      by (subst merge_loop.simps, subst (2) merge_loop.simps) auto
  next
    case True
    then have g: "0 \<le> i \<or> 0 \<le> j" by simp
    show ?thesis
    proof (cases "merge_step ah bh i j")
      case None
      then have "merge_step bh ah j i = None" using merge_step_comm(1) [OF g] by simp
      then show ?thesis using None True
        by (subst merge_loop.simps, subst (2) merge_loop.simps) auto
    next
      case (Some t)
      obtain h i' j' where t: "t = (h, i', j')" by (cases t) auto
      then have sw: "merge_step bh ah j i = Some (h, j', i')"
        using merge_step_comm(2) [OF g] Some by simp
      show ?thesis
      proof (cases "push_hash res h")
        case None
        then show ?thesis using Some t sw True
          by (subst merge_loop.simps, subst (2) merge_loop.simps) auto
      next
        case (Some res')
        have "merge_loop ah bh res' i' j' = merge_loop bh ah res' j' i'"
          using 1 [OF True] \<open>merge_step ah bh i j = Some t\<close> t Some by auto
        then show ?thesis using Some \<open>merge_step ah bh i j = Some t\<close> t sw True
          by (subst merge_loop.simps, subst (2) merge_loop.simps) auto
      qed
    qed
  qed
qed

text \<open>
  From the same world \<^verbatim>\<open>kmh_merge(a, b)\<close> and \<^verbatim>\<open>kmh_merge(b, a)\<close> have the same
  outcome, whatever the sketches: every iteration of the loop treats its two inputs
  alike.
\<close>

lemma kmh_merge_swap: "kmh_merge w pa pb = kmh_merge w pb pa"
proof (cases "deref w pa")
  case None
  then show ?thesis by (auto simp: kmh_merge_def split: option.splits)
next
  case a: (Some a)
  show ?thesis
  proof (cases "deref w pb")
    case None
    then show ?thesis by (auto simp: kmh_merge_def split: option.splits)
  next
    case b: (Some b)
    show ?thesis
    proof (cases "incompatible a b")
      case True
      then have "incompatible b a" by (auto simp: incompatible_def)
      then show ?thesis using True a b by (simp add: kmh_merge_def)
    next
      case False
      then have nb: "\<not> incompatible b a" and eq: "k b = k a" "space_size b = space_size a"
        "seed b = seed a" by (auto simp: incompatible_def)
      obtain r w' where init: "kmh_init w (k a) (space_size a) (seed a) = (r, w')"
        by (cases "kmh_init w (k a) (space_size a) (seed a)") auto
      show ?thesis
        using a b False nb eq init
        by (auto simp: kmh_merge_def merge_loop_comm split: option.splits)
    qed
  qed
qed

text \<open>
  The index \<^verbatim>\<open>int i = a->count - 1\<close> is below the number of cells whatever the count, so
  the merge loop stays inside both arrays; what it collects is the union of the two tails
  it visits, which does not depend on their order.
\<close>

lemma sint_le_uint: "sint (w :: u32) \<le> uint w"
proof -
  have "sint w = signed_take_bit 31 (uint w)" by (simp add: sint_uint)
  also have "\<dots> = take_bit 32 (uint w) - 2 ^ 32 * of_bool (bit (uint w) 31)"
    by (simp add: signed_take_bit_eq_take_bit_minus)
  also have "\<dots> \<le> take_bit 32 (uint w)" by simp
  also have "\<dots> = uint w" by (simp add: bintr_uint)
  finally show ?thesis .
qed

lemma sint_pred_below:
  assumes "unat (c :: u32) \<le> n"
  shows "sint (c - 1) < int n"
proof (cases "c = 0")
  case True
  then show ?thesis by simp
next
  case False
  have u: "unat (c - 1) = unat c - 1" using False by (simp add: unat_minus_one)
  have pos: "0 < unat c" using False by (simp add: unat_gt_0)
  have "uint (c - 1) = int (unat (c - 1))" by simp
  also have "\<dots> = int (unat c) - 1" unfolding u using pos by (simp add: of_nat_diff)
  finally have "uint (c - 1) = int (unat c) - 1" .
  moreover have "int (unat c) \<le> int n" using assms by (rule iffD2 [OF of_nat_le_iff])
  ultimately have "uint (c - 1) < int n" by linarith
  with sint_le_uint [of "c - 1"] show ?thesis by linarith
qed

lemma umerge_comm: "umerge xs ys = umerge ys xs"
  by (induction xs ys rule: umerge.induct) auto

lemma kmh_merge_value:
  assumes ok: "world_ok w"
    and a: "deref w pa = Some a" and b: "deref w pb = Some b"
    and ca: "unat (count a) \<le> length (hashes a)" and cb: "unat (count b) \<le> length (hashes b)"
    and compat: "k a = k b \<and> space_size a = space_size b \<and> seed a = seed b"
    and alloc: "fst (kmh_init w (k a) (space_size a) (seed a)) \<noteq> None"
  shows "\<exists>r w' res. kmh_merge w pa pb = Some (Some r, w') \<and> deref w' r = Some res \<and>
           k res = k a \<and> space_size res = space_size a \<and> seed res = seed a \<and>
           count res = of_nat (length (take (unat (k a))
                         (umerge (tail_asc (hashes a) (sint (count a - 1)))
                                 (tail_asc (hashes b) (sint (count b - 1)))))) \<and>
           stored res = rev (take (unat (k a))
                         (umerge (tail_asc (hashes a) (sint (count a - 1)))
                                 (tail_asc (hashes b) (sint (count b - 1)))))"
proof -
  define K where "K = unat (k a)"
  define Z where "Z = take K (umerge (tail_asc (hashes a) (sint (count a - 1)))
                                      (tail_asc (hashes b) (sint (count b - 1))))"
  obtain r w1 where init: "kmh_init w (k a) (space_size a) (seed a) = (Some r, w1)"
    using alloc by (cases "kmh_init w (k a) (space_size a) (seed a)") auto
  from kmh_init_Some [OF ok init] obtain cells where
    r1: "deref w1 r = Some \<lparr>k = k a, count = 0, space_size = space_size a, seed = seed a,
                            hashes = cells\<rparr>"
    and cap: "K \<le> length cells"
    and fresh: "deref w r = None"
    and frame: "\<forall>q. deref w q \<noteq> None \<longrightarrow> deref w1 q = deref w q"
    unfolding K_def by blast
  define res0 where
    "res0 = \<lparr>k = k a, count = 0, space_size = space_size a, seed = seed a, hashes = cells\<rparr>"
  have a1: "deref w1 pa = Some a" and b1: "deref w1 pb = Some b"
    using frame a b by simp_all
  have ja: "sint (count a - 1) < int (length (hashes a))"
    and jb: "sint (count b - 1) < int (length (hashes b))"
    using ca cb by (simp_all add: sint_pred_below)
  have lenZ: "length Z \<le> K" by (simp add: Z_def)
  have uZ: "unat (of_nat (length Z) :: u32) = length Z"
    using lenZ by (simp add: unat_of_nat_small K_def)
  define res1 where
    "res1 = res0\<lparr>hashes := Z @ drop (length Z) cells, count := of_nat (length Z)\<rparr>"
  have ml: "merge_loop (hashes a) (hashes b) res0 (sint (count a - 1)) (sint (count b - 1))
              = Some res1"
    using merge_loop_umerge [OF ja jb, of res0] cap
    by (simp add: res0_def res1_def K_def Z_def)
  have h1: "hashes res1 = Z @ drop (length Z) cells" and c1: "unat (count res1) = length Z"
    using uZ by (simp_all add: res1_def)
  have len1: "length Z \<le> length (hashes res1)" by (simp add: h1)
  define cells' where "cells' = rev Z @ drop (length Z) cells"
  have rl: "reverse_loop (hashes res1) (unat (count res1)) 0 = Some cells'"
    unfolding c1 using reverse_loop_rev [OF len1] by (simp add: h1 cells'_def)
  define res where "res = res1\<lparr>hashes := cells'\<rparr>"
  define w' where "w' = store w1 r res"
  have live: "deref w1 r \<noteq> None" using r1 by simp
  have merge: "kmh_merge w pa pb = Some (Some r, w')"
    using a b compat init a1 b1 r1 ml rl
    by (simp add: kmh_merge_def incompatible_def res0_def res_def w'_def)
  have d': "deref w' r = Some res"
    unfolding w'_def using store_deref [OF live] by simp
  have st: "stored res = rev Z"
    using uZ by (simp add: stored_def res_def res1_def cells'_def)
  have fields: "k res = k a" "space_size res = space_size a" "seed res = seed a"
    "count res = of_nat (length Z)"
    by (simp_all add: res_def res1_def res0_def)
  show ?thesis
    using merge d' fields st unfolding Z_def K_def by blast
qed

text \<open>
  Claim C10 (amended: \<^verbatim>\<open>kmh_init\<close> obtains storage for both results).  For two sketches
  \<open>a\<close> and \<open>b\<close> that satisfy the invariants and agree on \<^verbatim>\<open>k\<close>, \<^verbatim>\<open>space_size\<close> and
  \<^verbatim>\<open>seed\<close>, \<^verbatim>\<open>kmh_merge(a, b)\<close> and \<^verbatim>\<open>kmh_merge(b, a)\<close> are both defined and both
  return a sketch, and the two sketches have the same \<^verbatim>\<open>k\<close>, \<^verbatim>\<open>count\<close>,
  \<^verbatim>\<open>space_size\<close> and \<^verbatim>\<open>seed\<close> (those of the inputs) and the same stored hashes in the
  same order.  The two calls may start from different states of the storage, with the
  inputs at different places: one after the other, for instance.
\<close>

theorem kmh_merge_commutes:
  assumes ok: "world_ok w" and ok': "world_ok w'"
    and a: "deref w pa = Some a" and b: "deref w pb = Some b"
    and a': "deref w' pa' = Some a" and b': "deref w' pb' = Some b"
    and ia: "sketch_inv a" and ib: "sketch_inv b"
    and compat: "k a = k b \<and> space_size a = space_size b \<and> seed a = seed b"
    and alloc: "fst (kmh_init w (k a) (space_size a) (seed a)) \<noteq> None"
    and alloc': "fst (kmh_init w' (k a) (space_size a) (seed a)) \<noteq> None"
  shows "\<exists>r1 w1 s1 r2 w2 s2.
           kmh_merge w pa pb = Some (Some r1, w1) \<and> deref w1 r1 = Some s1 \<and>
           kmh_merge w' pb' pa' = Some (Some r2, w2) \<and> deref w2 r2 = Some s2 \<and>
           k s1 = k a \<and> space_size s1 = space_size a \<and> seed s1 = seed a \<and>
           k s1 = k s2 \<and> count s1 = count s2 \<and> space_size s1 = space_size s2 \<and>
           seed s1 = seed s2 \<and> stored s1 = stored s2"
proof -
  have ca: "unat (count a) \<le> length (hashes a)" and cb: "unat (count b) \<le> length (hashes b)"
    using ia ib by (simp_all add: sketch_inv_count)
  have compat': "k b = k a \<and> space_size b = space_size a \<and> seed b = seed a"
    using compat by simp
  have alloc2: "fst (kmh_init w' (k b) (space_size b) (seed b)) \<noteq> None"
    using alloc' compat by simp
  from kmh_merge_value [OF ok a b ca cb compat alloc] obtain r1 w1 s1 where
    m1: "kmh_merge w pa pb = Some (Some r1, w1)" "deref w1 r1 = Some s1"
      "k s1 = k a" "space_size s1 = space_size a" "seed s1 = seed a"
      "count s1 = of_nat (length (take (unat (k a))
                         (umerge (tail_asc (hashes a) (sint (count a - 1)))
                                 (tail_asc (hashes b) (sint (count b - 1))))))"
      "stored s1 = rev (take (unat (k a))
                         (umerge (tail_asc (hashes a) (sint (count a - 1)))
                                 (tail_asc (hashes b) (sint (count b - 1)))))"
    by blast
  from kmh_merge_value [OF ok' b' a' cb ca compat' alloc2] obtain r2 w2 s2 where
    m2: "kmh_merge w' pb' pa' = Some (Some r2, w2)" "deref w2 r2 = Some s2"
      "k s2 = k b" "space_size s2 = space_size b" "seed s2 = seed b"
      "count s2 = of_nat (length (take (unat (k b))
                         (umerge (tail_asc (hashes b) (sint (count b - 1)))
                                 (tail_asc (hashes a) (sint (count a - 1))))))"
      "stored s2 = rev (take (unat (k b))
                         (umerge (tail_asc (hashes b) (sint (count b - 1)))
                                 (tail_asc (hashes a) (sint (count a - 1)))))"
    by blast
  have sw: "umerge (tail_asc (hashes b) (sint (count b - 1)))
                   (tail_asc (hashes a) (sint (count a - 1)))
            = umerge (tail_asc (hashes a) (sint (count a - 1)))
                     (tail_asc (hashes b) (sint (count b - 1)))"
    by (rule umerge_comm)
  have kb: "k b = k a" using compat by simp
  have "count s1 = count s2" unfolding m1(6) m2(6) sw kb ..
  moreover have "stored s1 = stored s2" unfolding m1(7) m2(7) sw kb ..
  moreover have "k s1 = k s2" "space_size s1 = space_size s2" "seed s1 = seed s2"
    using m1(3-5) m2(3-5) compat by simp_all
  ultimately show ?thesis using m1(1-5) m2(1,2) by blast
qed

text \<open>
  Without storage for the result neither call returns a sketch: both return \<^verbatim>\<open>NULL\<close>.
\<close>

theorem kmh_merge_no_storage_counterexample:
  "world_ok ex_world_no_heap \<and> sketch_inv ex_a \<and> sketch_inv ex_b \<and>
   k ex_a = k ex_b \<and> space_size ex_a = space_size ex_b \<and> seed ex_a = seed ex_b \<and>
   deref ex_world_no_heap (HeapBlock 0) = Some ex_a \<and>
   deref ex_world_no_heap (HeapBlock 1) = Some ex_b \<and>
   kmh_merge ex_world_no_heap (HeapBlock 0) (HeapBlock 1) = Some (None, ex_world_no_heap) \<and>
   kmh_merge ex_world_no_heap (HeapBlock 1) (HeapBlock 0) = Some (None, ex_world_no_heap)"
proof -
  have ok: "world_ok ex_world_no_heap"
    using ex_world_ok by (simp add: world_ok_def ex_world_no_heap_def)
  have c: "k ex_a = k ex_b" "space_size ex_a = space_size ex_b" "seed ex_a = seed ex_b"
    by (simp_all add: ex_a_def ex_b_def)
  have d: "deref ex_world_no_heap (HeapBlock 0) = Some ex_a"
    "deref ex_world_no_heap (HeapBlock 1) = Some ex_b"
    by (simp_all add: deref_def ex_world_no_heap_def ex_world_def)
  have i: "kmh_init ex_world_no_heap (k ex_a) (space_size ex_a) (seed ex_a)
          = (None, ex_world_no_heap)"
    by (simp add: kmh_init_def ex_world_no_heap_def ex_world_def ex_a_def MAX_K_def
          MAX_INSTANCES_def Let_def sizeof_kvalue_minhash_t_def sizeof_uint32_t_def)
  then have i': "kmh_init ex_world_no_heap (k ex_b) (space_size ex_b) (seed ex_b)
          = (None, ex_world_no_heap)"
    unfolding c .
  have m1: "kmh_merge ex_world_no_heap (HeapBlock 0) (HeapBlock 1)
                  = Some (None, ex_world_no_heap)"
    using d i c by (simp add: kmh_merge_def incompatible_def)
  have m2: "kmh_merge ex_world_no_heap (HeapBlock 1) (HeapBlock 0)
                  = Some (None, ex_world_no_heap)"
    using d i' c by (simp add: kmh_merge_def incompatible_def)
  show ?thesis
    using ok ex_sketch_inv(1,2) c d m1 m2 by (simp only: simp_thms)
qed

theorem kmh_merge_commutes_witness:
  "world_ok ex_world \<and> world_ok ex_world_swapped \<and>
   deref ex_world (HeapBlock 0) = Some ex_a \<and> deref ex_world (HeapBlock 1) = Some ex_b \<and>
   deref ex_world_swapped (HeapBlock 1) = Some ex_a \<and>
   deref ex_world_swapped (HeapBlock 0) = Some ex_b \<and>
   sketch_inv ex_a \<and> sketch_inv ex_b \<and>
   (\<exists>r1 w1 s1 r2 w2 s2.
      kmh_merge ex_world (HeapBlock 0) (HeapBlock 1) = Some (Some r1, w1) \<and>
      deref w1 r1 = Some s1 \<and>
      kmh_merge ex_world_swapped (HeapBlock 0) (HeapBlock 1) = Some (Some r2, w2) \<and>
      deref w2 r2 = Some s2 \<and>
      k s1 = 4 \<and> space_size s1 = 1000 \<and> seed s1 = 42 \<and>
      k s1 = k s2 \<and> count s1 = count s2 \<and> space_size s1 = space_size s2 \<and>
      seed s1 = seed s2 \<and> stored s1 = stored s2)"
proof -
  have ok': "world_ok ex_world_swapped"
    using ex_world_ok by (simp add: world_ok_def ex_world_swapped_def)
  have a: "deref ex_world (HeapBlock 0) = Some ex_a"
    and b: "deref ex_world (HeapBlock 1) = Some ex_b"
    by (simp_all add: deref_def ex_world_def)
  have a': "deref ex_world_swapped (HeapBlock 1) = Some ex_a"
    and b': "deref ex_world_swapped (HeapBlock 0) = Some ex_b"
    by (simp_all add: deref_def ex_world_swapped_def)
  have compat: "k ex_a = k ex_b \<and> space_size ex_a = space_size ex_b \<and> seed ex_a = seed ex_b"
    by (simp add: ex_a_def ex_b_def)
  have alloc: "fst (kmh_init ex_world (k ex_a) (space_size ex_a) (seed ex_a)) \<noteq> None"
    by (simp add: kmh_init_def ex_world_def ex_a_def MAX_K_def MAX_INSTANCES_def Let_def
          sizeof_kvalue_minhash_t_def sizeof_uint32_t_def)
  have alloc': "fst (kmh_init ex_world_swapped (k ex_a) (space_size ex_a) (seed ex_a)) \<noteq> None"
    by (simp add: kmh_init_def ex_world_swapped_def ex_world_def ex_a_def MAX_K_def
          MAX_INSTANCES_def Let_def sizeof_kvalue_minhash_t_def sizeof_uint32_t_def)
  have u: "k ex_a = 4" "space_size ex_a = 1000" "seed ex_a = 42"
    by (simp_all add: ex_a_def)
  from kmh_merge_commutes [OF ex_world_ok ok' a b a' b' ex_sketch_inv(1) ex_sketch_inv(2)
         compat alloc alloc']
  have "\<exists>r1 w1 s1 r2 w2 s2.
      kmh_merge ex_world (HeapBlock 0) (HeapBlock 1) = Some (Some r1, w1) \<and>
      deref w1 r1 = Some s1 \<and>
      kmh_merge ex_world_swapped (HeapBlock 0) (HeapBlock 1) = Some (Some r2, w2) \<and>
      deref w2 r2 = Some s2 \<and>
      k s1 = 4 \<and> space_size s1 = 1000 \<and> seed s1 = 42 \<and>
      k s1 = k s2 \<and> count s1 = count s2 \<and> space_size s1 = space_size s2 \<and>
      seed s1 = seed s2 \<and> stored s1 = stored s2"
    unfolding u .
  then show ?thesis
    using ex_world_ok ok' a b a' b' ex_sketch_inv(1,2) by (intro conjI)
qed

subsection \<open>Serialization\<close>

lemma length_le32 [simp]: "length (le32 w) = 4"
  by (simp add: le32_def)

lemma length_le64 [simp]: "length (le64 w) = 8"
  by (simp add: le64_def)

lemma word_le32_le32:
  "word_le32 (ucast w) (ucast (drop_bit 8 w)) (ucast (drop_bit 16 w)) (ucast (drop_bit 24 w)) = w"
  unfolding word_le32_def
  apply (rule bit_word_eqI)
  subgoal for n
    apply (cases "n < 8"; cases "n < 16"; cases "n < 24")
           apply (auto simp: bit_simps)
    done
  done

lemma rd32_le32:
  "length pre = off \<Longrightarrow> rd32 (pre @ le32 a @ post) off = Some a"
  by (simp add: rd32_def nth_append le32_def word_le32_le32)

lemma rd32s_le32:
  "length pre = off \<Longrightarrow> rd32s (pre @ concat (map le32 xs) @ post) off (length xs) = Some xs"
proof (induction xs arbitrary: pre off)
  case Nil
  then show ?case by simp
next
  case (Cons x xs)
  have "rd32 (pre @ le32 x @ (concat (map le32 xs) @ post)) off = Some x"
    using Cons.prems by (rule rd32_le32)
  moreover have "rd32s ((pre @ le32 x) @ concat (map le32 xs) @ post) (off + 4) (length xs)
                   = Some xs"
    using Cons.prems by (intro Cons.IH) simp
  ultimately show ?case by simp
qed

lemma take_concat_le32:
  "take (4 * n) (concat (map le32 hs)) = concat (map le32 (take n hs))"
proof (induction hs arbitrary: n)
  case Nil
  then show ?case by simp
next
  case (Cons h hs)
  show ?case
  proof (cases n)
    case 0
    then show ?thesis by simp
  next
    case (Suc m)
    have "4 * Suc m - 4 = 4 * m" by simp
    then show ?thesis using Cons.IH [of m] Suc by simp
  qed
qed

lemma length_concat_le32 [simp]: "length (concat (map le32 hs)) = 4 * length hs"
  by (induction hs) simp_all

lemma scan_buffers_Some:
  "scan_buffers bs i n = Some j \<Longrightarrow> n \<le> buffer_size"
  by (induction bs arbitrary: i) (auto split: if_splits)

lemma kmh_get_buffer_capacity:
  "kmh_get_buffer w n = (Some buf, w') \<Longrightarrow> n \<le> buf_capacity buf n"
  by (auto simp: kmh_get_buffer_def buf_capacity_def Let_def
      split: option.splits if_splits dest: scan_buffers_Some)

lemma kmh_get_buffer_sketches:
  "kmh_get_buffer w n = (r, w') \<Longrightarrow>
   in_use w' = in_use w \<and> pool w' = pool w \<and> heap w' = heap w \<and> junk w' = junk w \<and>
   length (busy w') = length (busy w)"
  by (auto simp: kmh_get_buffer_def Let_def split: option.splits if_splits)

lemma serialize_sizes:
  assumes "unat (c :: u32) \<le> 10240"
  shows "unat (c * of_nat sizeof_uint32_t) = 4 * unat c"
    and "unat (of_nat sizeof_kvalue_minhash_t + c * of_nat sizeof_uint32_t) = 24 + 4 * unat c"
proof -
  have lt: "unat c * 4 < 2 ^ 32" "24 + unat c * 4 < 2 ^ 32" using assms by simp_all
  have "unat (c * 4) = (unat c * 4) mod 2 ^ 32" by (simp add: unat_word_ariths)
  then have m: "unat (c * 4) = unat c * 4" using lt(1) by simp
  then show h: "unat (c * of_nat sizeof_uint32_t) = 4 * unat c"
    by (simp add: sizeof_uint32_t_def)
  have "unat (24 + c * 4) = (24 + unat (c * 4)) mod 2 ^ 32" by (simp add: unat_word_ariths)
  then have "unat (24 + c * 4) = 24 + unat c * 4" using lt(2) m by simp
  then show "unat (of_nat sizeof_kvalue_minhash_t + c * of_nat sizeof_uint32_t) = 24 + 4 * unat c"
    by (simp add: sizeof_uint32_t_def sizeof_kvalue_minhash_t_def)
qed

lemma kmh_serialize_eq:
  assumes c: "unat (count s) \<le> length (hashes s)" and small: "unat (count s) \<le> 10240"
  shows "kmh_serialize w s =
     (case kmh_get_buffer w (24 + 4 * unat (count s)) of
        (None, w') \<Rightarrow> Some (None, w')
      | (Some buf, w') \<Rightarrow>
          Some (Some (of_nat sizeof_kvalue_minhash_t + count s * of_nat sizeof_uint32_t, buf,
                  struct_dump s (buf_address w' buf + 24)), w'))"
proof (cases "kmh_get_buffer w (24 + 4 * unat (count s))")
  case (Pair r w')
  note sz = serialize_sizes [OF small]
  have u24: "unat (of_nat sizeof_kvalue_minhash_t :: u32) = 24"
    by (simp add: sizeof_kvalue_minhash_t_def)
  show ?thesis
  proof (cases r)
    case None
    then show ?thesis using Pair by (simp add: kmh_serialize_def Let_def sz)
  next
    case (Some buf)
    have cap: "24 + 4 * unat (count s) \<le> buf_capacity buf (24 + 4 * unat (count s))"
      using Pair Some by (auto dest: kmh_get_buffer_capacity)
    have rd: "4 * unat (count s) \<le> length (hashes s) * sizeof_uint32_t"
      using c by (simp add: sizeof_uint32_t_def)
    have tk: "take (4 * unat (count s)) (concat (map le32 (hashes s)))
                = concat (map le32 (stored s))"
      by (simp add: take_concat_le32 stored_def)
    have p: "(of_nat (unat (of_nat sizeof_kvalue_minhash_t :: u32)) :: u64) = 24"
      unfolding u24 by simp
    show ?thesis
      using Pair Some cap rd
      by (simp add: kmh_serialize_def Let_def sz u24 tk p struct_dump_def)
  qed
qed

lemma rd32_Some: "off + 4 \<le> length buf \<Longrightarrow> \<exists>x. rd32 buf off = Some x"
  by (simp add: rd32_def)

lemma rd32_None: "\<not> off + 4 \<le> length buf \<Longrightarrow> rd32 buf off = None"
  by (simp add: rd32_def)

lemma rd32s_Some:
  "off + 4 * n \<le> length buf \<Longrightarrow> \<exists>xs. rd32s buf off n = Some xs \<and> length xs = n"
proof (induction n arbitrary: off)
  case 0
  then show ?case by simp
next
  case (Suc n)
  then have "off + 4 \<le> length buf" "(off + 4) + 4 * n \<le> length buf" by simp_all
  from rd32_Some [OF this(1)] Suc.IH [OF this(2)] show ?case by auto
qed

lemma unat_of_nat_len32: "n < 2 ^ 32 \<Longrightarrow> unat (of_nat n :: u32) = n"
  by (simp add: unsigned_of_nat take_bit_nat_eq_self)

lemma kmh_deserialize_short:
  assumes "length blob < 2 ^ 32" and "length blob < sizeof_kvalue_minhash_t"
  shows "kmh_deserialize w blob (of_nat (length blob)) = Some (None, w)"
  using assms by (simp add: kmh_deserialize_def unat_of_nat_len32)

lemma kmh_deserialize_header:
  assumes len: "length blob < 2 ^ 32" and long: "sizeof_kvalue_minhash_t \<le> length blob"
    and h: "rd32 blob 0 = Some kk" "rd32 blob 4 = Some cnt" "rd32 blob 8 = Some sp"
      "rd32 blob 12 = Some sd"
    and bad: "cnt > kk \<or> unat kk > MAX_K * 10
              \<or> length blob < sizeof_kvalue_minhash_t + unat cnt * sizeof_uint32_t"
  shows "kmh_deserialize w blob (of_nat (length blob)) = Some (None, w)"
  using assms by (simp add: kmh_deserialize_def unat_of_nat_len32)

lemma kmh_deserialize_nomem:
  assumes len: "length blob < 2 ^ 32" and long: "sizeof_kvalue_minhash_t \<le> length blob"
    and h: "rd32 blob 0 = Some kk" "rd32 blob 4 = Some cnt" "rd32 blob 8 = Some sp"
      "rd32 blob 12 = Some sd"
    and good: "\<not> (cnt > kk \<or> unat kk > MAX_K * 10
              \<or> length blob < sizeof_kvalue_minhash_t + unat cnt * sizeof_uint32_t)"
    and init: "fst (kmh_init w kk sp sd) = None"
  shows "kmh_deserialize w blob (of_nat (length blob)) = Some (None, w)"
proof -
  have "snd (kmh_init w kk sp sd) = w"
    using init by (auto simp: kmh_init_def Let_def split: option.splits if_splits)
  then have "kmh_init w kk sp sd = (None, w)" using init by (metis prod.collapse)
  then show ?thesis
    using len long h good by (simp add: kmh_deserialize_def unat_of_nat_len32)
qed

lemma kmh_deserialize_ok:
  assumes ok: "world_ok w" and len: "length blob < 2 ^ 32"
    and long: "sizeof_kvalue_minhash_t \<le> length blob"
    and h: "rd32 blob 0 = Some kk" "rd32 blob 4 = Some cnt" "rd32 blob 8 = Some sp"
      "rd32 blob 12 = Some sd"
    and good: "\<not> (cnt > kk \<or> unat kk > MAX_K * 10
              \<or> length blob < sizeof_kvalue_minhash_t + unat cnt * sizeof_uint32_t)"
    and init: "kmh_init w kk sp sd = (Some p, w1)"
  shows "\<exists>w' s' xs. kmh_deserialize w blob (of_nat (length blob)) = Some (Some p, w') \<and>
           rd32s blob sizeof_kvalue_minhash_t (unat cnt) = Some xs \<and>
           deref w' p = Some s' \<and> k s' = kk \<and> count s' = cnt \<and> space_size s' = sp \<and>
           seed s' = sd \<and> stored s' = xs \<and> unat kk \<le> length (hashes s') \<and>
           deref w p = None \<and> (\<forall>q. deref w q \<noteq> None \<longrightarrow> deref w' q = deref w q)"
proof -
  from kmh_init_Some [OF ok init] obtain cells where
    r1: "deref w1 p = Some \<lparr>k = kk, count = 0, space_size = sp, seed = sd, hashes = cells\<rparr>"
    and cap: "unat kk \<le> length cells"
    and fresh: "deref w p = None"
    and frame: "\<forall>q. deref w q \<noteq> None \<longrightarrow> deref w1 q = deref w q"
    by blast
  define c where "c = unat cnt"
  have "cnt \<le> kk" using good by (simp add: not_less)
  then have cK: "c \<le> unat kk" by (simp add: c_def word_le_nat_alt)
  have "sizeof_kvalue_minhash_t + 4 * c \<le> length blob"
    using good by (simp add: c_def sizeof_uint32_t_def)
  from rd32s_Some [OF this] obtain xs where
    xs: "rd32s blob sizeof_kvalue_minhash_t c = Some xs" "length xs = c"
    by blast
  define s' where
    "s' = \<lparr>k = kk, count = cnt, space_size = sp, seed = sd, hashes = xs @ drop c cells\<rparr>"
  have live: "deref w1 p \<noteq> None" using r1 by simp
  have d': "\<And>q. deref (store w1 p s') q = (if q = p then Some s' else deref w1 q)"
    by (rule store_deref [OF live])
  have des: "kmh_deserialize w blob (of_nat (length blob)) = Some (Some p, store w1 p s')"
  proof (cases "cnt = 0")
    case True
    then have "c = 0" "xs = []" using xs(2) by (simp_all add: c_def)
    then show ?thesis
      using len long h good init r1 True
      by (simp add: kmh_deserialize_def unat_of_nat_len32 s'_def)
  next
    case False
    then have "0 < cnt" by (simp add: word_neq_0_conv)
    moreover have "c \<le> length cells" using cK cap by simp
    ultimately show ?thesis
      using len long h good init r1 xs
      by (simp add: kmh_deserialize_def unat_of_nat_len32 s'_def c_def)
  qed
  have "stored s' = xs" using xs(2) by (simp add: stored_def s'_def c_def)
  moreover have "unat kk \<le> length (hashes s')"
    using cK cap xs(2) by (simp add: s'_def)
  moreover have "\<forall>q. deref w q \<noteq> None \<longrightarrow> deref (store w1 p s') q = deref w q"
    using frame fresh d' by auto
  ultimately show ?thesis
    using des xs(1) d' fresh unfolding c_def by (auto simp: s'_def)
qed

lemma struct_dump_length: "length (struct_dump s p) = 24 + 4 * length (stored s)"
  by (simp add: struct_dump_def)

lemma struct_dump_reads:
  "rd32 (struct_dump s p) 0 = Some (k s)"
  "rd32 (struct_dump s p) 4 = Some (count s)"
  "rd32 (struct_dump s p) 8 = Some (space_size s)"
  "rd32 (struct_dump s p) 12 = Some (seed s)"
  "rd32s (struct_dump s p) sizeof_kvalue_minhash_t (length (stored s)) = Some (stored s)"
proof -
  show "rd32 (struct_dump s p) 0 = Some (k s)"
    unfolding struct_dump_def using rd32_le32 [of "[]" 0] by simp
  show "rd32 (struct_dump s p) 4 = Some (count s)"
    unfolding struct_dump_def using rd32_le32 [of "le32 (k s)" 4] by simp
  show "rd32 (struct_dump s p) 8 = Some (space_size s)"
    unfolding struct_dump_def using rd32_le32 [of "le32 (k s) @ le32 (count s)" 8] by simp
  show "rd32 (struct_dump s p) 12 = Some (seed s)"
    unfolding struct_dump_def
    using rd32_le32 [of "le32 (k s) @ le32 (count s) @ le32 (space_size s)" 12] by simp
  show "rd32s (struct_dump s p) sizeof_kvalue_minhash_t (length (stored s)) = Some (stored s)"
    unfolding struct_dump_def sizeof_kvalue_minhash_t_def
    using rd32s_le32 [of "le32 (k s) @ le32 (count s) @ le32 (space_size s) @ le32 (seed s)
                            @ le64 p" 24 "stored s" "[]"]
    by simp
qed

text \<open>
  Claim C6 (amended: \<^verbatim>\<open>k\<close> is at most \<^verbatim>\<open>MAX_K * 10\<close>, and a buffer and storage for the
  result are obtained).  For a sketch that satisfies the invariants, \<^verbatim>\<open>kmh_serialize\<close>
  is defined and returns a blob of the returned size, \<^verbatim>\<open>kmh_deserialize\<close> of that blob
  is defined and returns a sketch, and the sketch has the same \<^verbatim>\<open>k\<close>, \<^verbatim>\<open>count\<close>,
  \<^verbatim>\<open>space_size\<close>, \<^verbatim>\<open>seed\<close> and stored hashes, in the same order.
\<close>

theorem serialize_deserialize_roundtrip:
  assumes ok: "world_ok w" and inv: "sketch_inv s" and bound: "unat (k s) \<le> MAX_K * 10"
    and buf: "fst (kmh_get_buffer w (sizeof_kvalue_minhash_t + 4 * unat (count s))) \<noteq> None"
    and alloc: "fst (kmh_init (snd (kmh_get_buffer w
                       (sizeof_kvalue_minhash_t + 4 * unat (count s))))
                     (k s) (space_size s) (seed s)) \<noteq> None"
  shows "\<exists>sz b blob w1 p w2 s'.
           kmh_serialize w s = Some (Some (sz, b, blob), w1) \<and> unat sz = length blob \<and>
           kmh_deserialize w1 blob sz = Some (Some p, w2) \<and> deref w2 p = Some s' \<and>
           k s' = k s \<and> count s' = count s \<and> space_size s' = space_size s \<and>
           seed s' = seed s \<and> stored s' = stored s"
proof -
  define c where "c = unat (count s)"
  have cK: "c \<le> unat (k s)" using inv by (simp add: sketch_inv_def c_def word_le_nat_alt)
  have ccap: "c \<le> length (hashes s)" using inv by (simp add: c_def sketch_inv_count)
  have csmall: "c \<le> 10240" using cK bound by (simp add: MAX_K_def)
  have lst: "length (stored s) = c" using ccap by (simp add: stored_def c_def)
  obtain b w1 where gb: "kmh_get_buffer w (24 + 4 * c) = (Some b, w1)"
    using buf unfolding sizeof_kvalue_minhash_t_def c_def
    by (cases "kmh_get_buffer w (24 + 4 * unat (count s))") auto
  define sz where "sz = (of_nat sizeof_kvalue_minhash_t + count s * of_nat sizeof_uint32_t :: u32)"
  define blob where "blob = struct_dump s (buf_address w1 b + 24)"
  have ser: "kmh_serialize w s = Some (Some (sz, b, blob), w1)"
    using kmh_serialize_eq [of s w] ccap csmall gb
    by (simp add: c_def sz_def blob_def)
  have usz: "unat sz = 24 + 4 * c"
    unfolding sz_def c_def using csmall by (intro serialize_sizes(2)) (simp add: c_def)
  have lb: "length blob = 24 + 4 * c" by (simp add: blob_def struct_dump_length lst)
  have "(of_nat (unat sz) :: u32) = sz" by simp
  then have szb: "sz = of_nat (length blob)" using usz lb by simp
  have lb32: "length blob < 2 ^ 32" using lb csmall by simp
  have long: "sizeof_kvalue_minhash_t \<le> length blob"
    using lb by (simp add: sizeof_kvalue_minhash_t_def)
  have ok1: "world_ok w1"
    using ok kmh_get_buffer_sketches [OF gb] by (simp add: world_ok_def)
  have good: "\<not> (count s > k s \<or> unat (k s) > MAX_K * 10
              \<or> length blob < sizeof_kvalue_minhash_t + unat (count s) * sizeof_uint32_t)"
    using inv bound lb
    by (simp add: sketch_inv_def not_less c_def sizeof_kvalue_minhash_t_def sizeof_uint32_t_def)
  obtain p w2 where init: "kmh_init w1 (k s) (space_size s) (seed s) = (Some p, w2)"
    using alloc gb unfolding sizeof_kvalue_minhash_t_def c_def
    by (cases "kmh_init w1 (k s) (space_size s) (seed s)") auto
  have rs: "rd32s blob sizeof_kvalue_minhash_t (unat (count s)) = Some (stored s)"
    using struct_dump_reads(5) [of s] lst by (simp add: blob_def c_def)
  from kmh_deserialize_ok [OF ok1 lb32 long _ _ _ _ good init, folded szb]
    struct_dump_reads(1-4) [of s "buf_address w1 b + 24", folded blob_def]
  obtain w' s' xs where d: "kmh_deserialize w1 blob sz = Some (Some p, w')"
    "rd32s blob sizeof_kvalue_minhash_t (unat (count s)) = Some xs"
    "deref w' p = Some s'" "k s' = k s" "count s' = count s" "space_size s' = space_size s"
    "seed s' = seed s" "stored s' = xs"
    by blast
  have "stored s' = stored s" using d(2,8) rs by simp
  then show ?thesis using ser usz lb d by auto
qed

text \<open>
  Claim C9 (amended: the length test is a lower bound, and \<^verbatim>\<open>kmh_init\<close> may find no
  storage).  With \<^verbatim>\<open>buf_size\<close> the length of the blob, \<^verbatim>\<open>kmh_deserialize\<close> returns
  \<^verbatim>\<open>NULL\<close>, leaving the world as it was, when the blob has fewer than 16 bytes, or the
  decoded \<^verbatim>\<open>count\<close> exceeds the decoded \<^verbatim>\<open>k\<close>, or \<^verbatim>\<open>k\<close> exceeds \<^verbatim>\<open>MAX_K * 10\<close>, or
  the blob has fewer than \<open>16 + 4 \<cdot> count\<close> bytes, or no storage is obtained.  It returns
  a sketch with the decoded fields, at a pointer that was not live, when none of these holds
  and the blob has at least \<open>24 + 4 \<cdot> count\<close> bytes; bytes beyond the hashes do not make
  it fail.  Between \<open>16 + 4 \<cdot> count\<close> and \<open>24 + 4 \<cdot> count\<close> bytes the statement is silent:
  there the outcome depends on the size of the header, the matter of claim C5.
  \<^verbatim>\<open>kmh_cardinality_from_serialized\<close> returns -1.0 on every blob shorter than 16 bytes.
\<close>

theorem kmh_deserialize_rejects_malformed:
  assumes ok: "world_ok w" and len: "length blob < 2 ^ 32"
  shows "(length blob < 16 \<longrightarrow>
            kmh_deserialize w blob (of_nat (length blob)) = Some (None, w) \<and>
            kmh_cardinality_from_serialized blob (of_nat (length blob)) = Some (Dbl (- 1))) \<and>
         (16 \<le> length blob \<longrightarrow>
            (\<exists>kk cnt sp sd.
               rd32 blob 0 = Some kk \<and> rd32 blob 4 = Some cnt \<and>
               rd32 blob 8 = Some sp \<and> rd32 blob 12 = Some sd \<and>
               (kk < cnt \<or> MAX_K * 10 < unat kk \<or> length blob < 16 + 4 * unat cnt
                  \<or> fst (kmh_init w kk sp sd) = None \<longrightarrow>
                kmh_deserialize w blob (of_nat (length blob)) = Some (None, w)) \<and>
               (cnt \<le> kk \<and> unat kk \<le> MAX_K * 10 \<and> 24 + 4 * unat cnt \<le> length blob
                  \<and> fst (kmh_init w kk sp sd) \<noteq> None \<longrightarrow>
                (\<exists>p w' s'.
                   kmh_deserialize w blob (of_nat (length blob)) = Some (Some p, w') \<and>
                   deref w p = None \<and> deref w' p = Some s' \<and> k s' = kk \<and> count s' = cnt \<and>
                   space_size s' = sp \<and> seed s' = sd))))"
proof (intro conjI impI)
  assume "length blob < 16"
  then show "kmh_deserialize w blob (of_nat (length blob)) = Some (None, w)"
    using len by (intro kmh_deserialize_short) (simp_all add: sizeof_kvalue_minhash_t_def)
next
  assume "length blob < 16"
  then show "kmh_cardinality_from_serialized blob (of_nat (length blob)) = Some (Dbl (- 1))"
    using len
    by (simp add: kmh_cardinality_from_serialized_def unat_of_nat_len32 sizeof_uint32_t_def)
next
  assume l16: "16 \<le> length blob"
  then have "0 + 4 \<le> length blob" "4 + 4 \<le> length blob" "8 + 4 \<le> length blob"
    "12 + 4 \<le> length blob"
    by simp_all
  then obtain kk cnt sp sd where
    h: "rd32 blob 0 = Some kk" "rd32 blob 4 = Some cnt" "rd32 blob 8 = Some sp"
       "rd32 blob 12 = Some sd"
    using rd32_Some [of 0 blob] rd32_Some [of 4 blob] rd32_Some [of 8 blob]
      rd32_Some [of 12 blob]
    by auto
  let ?bad = "kk < cnt \<or> MAX_K * 10 < unat kk
     \<or> length blob < sizeof_kvalue_minhash_t + unat cnt * sizeof_uint32_t"
  have rej: "kmh_deserialize w blob (of_nat (length blob)) = Some (None, w)"
    if c: "kk < cnt \<or> MAX_K * 10 < unat kk \<or> length blob < 16 + 4 * unat cnt
             \<or> fst (kmh_init w kk sp sd) = None"
  proof (cases "length blob < sizeof_kvalue_minhash_t")
    case True
    then show ?thesis using len by (intro kmh_deserialize_short)
  next
    case False
    then have long: "sizeof_kvalue_minhash_t \<le> length blob" by simp
    show ?thesis
    proof (cases ?bad)
      case True
      then show ?thesis by (rule kmh_deserialize_header [OF len long h])
    next
      case good: False
      then have "\<not> length blob < 16 + 4 * unat cnt"
        by (simp add: sizeof_kvalue_minhash_t_def sizeof_uint32_t_def)
      then have "fst (kmh_init w kk sp sd) = None" using c good by blast
      then show ?thesis by (rule kmh_deserialize_nomem [OF len long h good])
    qed
  qed
  have acc: "\<exists>p w' s'.
                   kmh_deserialize w blob (of_nat (length blob)) = Some (Some p, w') \<and>
                   deref w p = None \<and> deref w' p = Some s' \<and> k s' = kk \<and> count s' = cnt \<and>
                   space_size s' = sp \<and> seed s' = sd"
    if c: "cnt \<le> kk \<and> unat kk \<le> MAX_K * 10 \<and> 24 + 4 * unat cnt \<le> length blob
                  \<and> fst (kmh_init w kk sp sd) \<noteq> None"
  proof -
    from c have long: "sizeof_kvalue_minhash_t \<le> length blob"
      by (simp add: sizeof_kvalue_minhash_t_def)
    from c have good: "\<not> ?bad"
      by (simp add: sizeof_kvalue_minhash_t_def sizeof_uint32_t_def not_less)
    from c obtain p where "fst (kmh_init w kk sp sd) = Some p" by auto
    then have init: "kmh_init w kk sp sd = (Some p, snd (kmh_init w kk sp sd))"
      by (metis prod.collapse)
    from kmh_deserialize_ok [OF ok len long h good init] show ?thesis by blast
  qed
  show "\<exists>kk cnt sp sd.
               rd32 blob 0 = Some kk \<and> rd32 blob 4 = Some cnt \<and>
               rd32 blob 8 = Some sp \<and> rd32 blob 12 = Some sd \<and>
               (kk < cnt \<or> MAX_K * 10 < unat kk \<or> length blob < 16 + 4 * unat cnt
                  \<or> fst (kmh_init w kk sp sd) = None \<longrightarrow>
                kmh_deserialize w blob (of_nat (length blob)) = Some (None, w)) \<and>
               (cnt \<le> kk \<and> unat kk \<le> MAX_K * 10 \<and> 24 + 4 * unat cnt \<le> length blob
                  \<and> fst (kmh_init w kk sp sd) \<noteq> None \<longrightarrow>
                (\<exists>p w' s'.
                   kmh_deserialize w blob (of_nat (length blob)) = Some (Some p, w') \<and>
                   deref w p = None \<and> deref w' p = Some s' \<and> k s' = kk \<and> count s' = cnt \<and>
                   space_size s' = sp \<and> seed s' = sd))"
  proof (intro exI conjI)
    show "kk < cnt \<or> MAX_K * 10 < unat kk \<or> length blob < 16 + 4 * unat cnt
                  \<or> fst (kmh_init w kk sp sd) = None \<longrightarrow>
                kmh_deserialize w blob (of_nat (length blob)) = Some (None, w)"
      using rej by blast
    show "cnt \<le> kk \<and> unat kk \<le> MAX_K * 10 \<and> 24 + 4 * unat cnt \<le> length blob
                  \<and> fst (kmh_init w kk sp sd) \<noteq> None \<longrightarrow>
                (\<exists>p w' s'.
                   kmh_deserialize w blob (of_nat (length blob)) = Some (Some p, w') \<and>
                   deref w p = None \<and> deref w' p = Some s' \<and> k s' = kk \<and> count s' = cnt \<and>
                   space_size s' = sp \<and> seed s' = sd)"
      using acc by blast
  qed (rule h)+
qed

lemma ex_serialize_small:
  "kmh_serialize ex_world ex_small
     = Some (Some (32, HeapBuf 16777220,
               [2, 0, 0, 0, 2, 0, 0, 0, 232, 3, 0, 0, 42, 0, 0, 0,
                28, 0, 0, 1, 0, 0, 0, 0, 7, 0, 0, 0, 3, 0, 0, 0]),
             ex_world\<lparr>heap_left := 4060, malloc_addr := 16777252\<rparr>)"
  by (simp add: kmh_serialize_def kmh_get_buffer_def ex_world_def ex_small_def Let_def
        MAX_SERIALIZE_BUFFERS_def sizeof_kvalue_minhash_t_def sizeof_uint32_t_def
        sizeof_int_def buf_capacity_def buf_address_def le32_def le64_def)

text \<open>
  Claim C4, at a saturated sketch with \<^verbatim>\<open>k = 2\<close>, hashes 7 and 3 and
  \<^verbatim>\<open>space_size = 1000\<close>.  \<^verbatim>\<open>kmh_cardinality\<close> returns \<open>1000 \<cdot> 1 / (7 + 1) = 125\<close>.
  \<^verbatim>\<open>kmh_serialize\<close> puts the redirected \<^verbatim>\<open>hashes\<close> pointer at offset 16 (here the
  address \<^verbatim>\<open>0x100001C\<close>) and the first hash at offset 24, so
  \<^verbatim>\<open>kmh_cardinality_from_serialized\<close>, which reads offset 16, returns
  \<open>1000 \<cdot> 1 / (16777244 + 1)\<close>.
\<close>

theorem fast_cardinality_reads_pointer:
  "kmh_cardinality ex_small = Some (Dbl 125) \<and>
   map_option fst (kmh_serialize ex_world ex_small)
     = Some (Some (32, HeapBuf 16777220,
               [2, 0, 0, 0, 2, 0, 0, 0, 232, 3, 0, 0, 42, 0, 0, 0,
                28, 0, 0, 1, 0, 0, 0, 0, 7, 0, 0, 0, 3, 0, 0, 0])) \<and>
   rd32 [2, 0, 0, 0, 2, 0, 0, 0, 232, 3, 0, 0, 42, 0, 0, 0,
         28, 0, 0, 1, 0, 0, 0, 0, 7, 0, 0, 0, 3, 0, 0, 0] 16 = Some 16777244 \<and>
   rd32 [2, 0, 0, 0, 2, 0, 0, 0, 232, 3, 0, 0, 42, 0, 0, 0,
         28, 0, 0, 1, 0, 0, 0, 0, 7, 0, 0, 0, 3, 0, 0, 0] 24 = Some 7 \<and>
   kmh_cardinality_from_serialized
      [2, 0, 0, 0, 2, 0, 0, 0, 232, 3, 0, 0, 42, 0, 0, 0,
       28, 0, 0, 1, 0, 0, 0, 0, 7, 0, 0, 0, 3, 0, 0, 0] 32
     = Some (Dbl (1000 / 16777245)) \<and>
   1 / 1000000 < \<bar>(125 :: real) - 1000 / 16777245\<bar>"
proof -
  have "kmh_cardinality ex_small = Some (Dbl 125)"
    by (simp add: kmh_cardinality_def ex_small_def rd_def ddiv_def dbl_of_u32_def)
  moreover have "kmh_cardinality_from_serialized
      [2, 0, 0, 0, 2, 0, 0, 0, 232, 3, 0, 0, 42, 0, 0, 0,
       28, 0, 0, 1, 0, 0, 0, 0, 7, 0, 0, 0, 3, 0, 0, 0] 32
     = Some (Dbl (1000 / 16777245))"
    by (simp add: kmh_cardinality_from_serialized_def sizeof_uint32_t_def rd32_def
          word_le32_def ddiv_def dbl_of_u32_def)
  moreover have "rd32 [2, 0, 0, 0, 2, 0, 0, 0, 232, 3, 0, 0, 42, 0, 0, 0,
         28, 0, 0, 1, 0, 0, 0, 0, 7, 0, 0, 0, 3, 0, 0, 0] 16 = Some 16777244"
    "rd32 [2, 0, 0, 0, 2, 0, 0, 0, 232, 3, 0, 0, 42, 0, 0, 0,
         28, 0, 0, 1, 0, 0, 0, 0, 7, 0, 0, 0, 3, 0, 0, 0] 24 = Some 7"
    by (simp_all add: rd32_def word_le32_def)
  moreover have "1 / 1000000 < \<bar>(125 :: real) - 1000 / 16777245\<bar>" by simp
  ultimately show ?thesis by (simp only: ex_serialize_small option.map fst_conv simp_thms)
qed

text \<open>
  Claim C5, at a sketch with four hashes.  The claim gives a blob of \<open>16 + 4 \<cdot> 4 = 32\<close>
  bytes with the hashes at offset 16; \<^verbatim>\<open>kmh_serialize\<close> returns 40 bytes, the size of the
  struct plus the hashes: the four fields, then at offset 16 the eight bytes of the pointer
  \<^verbatim>\<open>buf + 24\<close>, then the hashes at offset 24.
\<close>

theorem kmh_serialize_dumps_struct:
  "map_option fst (kmh_serialize ex_world_free ex_a)
     = Some (Some (40, PoolBuf 0,
               [4, 0, 0, 0, 4, 0, 0, 0, 232, 3, 0, 0, 42, 0, 0, 0,
                24, 64, 64, 0, 0, 0, 0, 0,
                31, 3, 0, 0, 217, 0, 0, 0, 202, 0, 0, 0, 85, 0, 0, 0])) \<and>
   16 + 4 * unat (count ex_a) = 32 \<and>
   le64 (buffer_addr ex_world_free 0 + 24) = [24, 64, 64, 0, 0, 0, 0, 0] \<and>
   concat (map le32 (stored ex_a)) = [31, 3, 0, 0, 217, 0, 0, 0, 202, 0, 0, 0, 85, 0, 0, 0]"
  by (simp add: kmh_serialize_def kmh_get_buffer_def ex_world_free_def ex_world_def ex_a_def
        Let_def MAX_SERIALIZE_BUFFERS_def MAX_K_def buffer_size_def sizeof_kvalue_minhash_t_def
        sizeof_uint32_t_def sizeof_int_def buf_capacity_def buf_address_def le32_def le64_def
        stored_def)

text \<open>
  A sketch of capacity 10241 satisfies the invariants and is serialized, but
  \<^verbatim>\<open>kmh_deserialize\<close> rejects its blob, as it rejects every \<^verbatim>\<open>k\<close> above
  \<^verbatim>\<open>MAX_K * 10\<close>; and without a buffer \<^verbatim>\<open>kmh_serialize\<close> returns 0.
\<close>

theorem roundtrip_counterexample:
  "sketch_inv ex_wide \<and>
   kmh_serialize ex_world ex_wide
     = Some (Some (24, HeapBuf 16777220,
               [1, 40, 0, 0, 0, 0, 0, 0, 232, 3, 0, 0, 42, 0, 0, 0, 28, 0, 0, 1, 0, 0, 0, 0]),
             ex_world\<lparr>heap_left := 4068, malloc_addr := 16777244\<rparr>) \<and>
   kmh_deserialize (ex_world\<lparr>heap_left := 4068, malloc_addr := 16777244\<rparr>)
       [1, 40, 0, 0, 0, 0, 0, 0, 232, 3, 0, 0, 42, 0, 0, 0, 28, 0, 0, 1, 0, 0, 0, 0] 24
     = Some (None, ex_world\<lparr>heap_left := 4068, malloc_addr := 16777244\<rparr>) \<and>
   sketch_inv ex_a \<and>
   kmh_serialize ex_world_no_heap ex_a = Some (None, ex_world_no_heap)"
proof -
  have "sketch_inv ex_wide"
    by (simp add: sketch_inv_def stored_def ex_wide_def)
  moreover have "kmh_serialize ex_world ex_wide
     = Some (Some (24, HeapBuf 16777220,
               [1, 40, 0, 0, 0, 0, 0, 0, 232, 3, 0, 0, 42, 0, 0, 0, 28, 0, 0, 1, 0, 0, 0, 0]),
             ex_world\<lparr>heap_left := 4068, malloc_addr := 16777244\<rparr>)"
    by (simp add: kmh_serialize_def kmh_get_buffer_def ex_world_def ex_wide_def Let_def
        MAX_SERIALIZE_BUFFERS_def sizeof_kvalue_minhash_t_def sizeof_uint32_t_def
        sizeof_int_def buf_capacity_def buf_address_def le32_def le64_def)
  moreover have "kmh_deserialize (ex_world\<lparr>heap_left := 4068, malloc_addr := 16777244\<rparr>)
       [1, 40, 0, 0, 0, 0, 0, 0, 232, 3, 0, 0, 42, 0, 0, 0, 28, 0, 0, 1, 0, 0, 0, 0] 24
     = Some (None, ex_world\<lparr>heap_left := 4068, malloc_addr := 16777244\<rparr>)"
    by (simp add: kmh_deserialize_def sizeof_kvalue_minhash_t_def sizeof_uint32_t_def rd32_def
          word_le32_def MAX_K_def)
  moreover have "kmh_serialize ex_world_no_heap ex_a = Some (None, ex_world_no_heap)"
    by (simp add: kmh_serialize_def kmh_get_buffer_def ex_world_no_heap_def ex_world_def
        ex_a_def Let_def MAX_SERIALIZE_BUFFERS_def sizeof_kvalue_minhash_t_def
        sizeof_uint32_t_def sizeof_int_def)
  ultimately show ?thesis using ex_sketch_inv(1) by (simp only: simp_thms)
qed

theorem serialize_deserialize_roundtrip_witness:
  "world_ok ex_world \<and> sketch_inv ex_a \<and> unat (k ex_a) \<le> MAX_K * 10 \<and>
   (\<exists>sz b blob w1 p w2 s'.
      kmh_serialize ex_world ex_a = Some (Some (sz, b, blob), w1) \<and> unat sz = length blob \<and>
      kmh_deserialize w1 blob sz = Some (Some p, w2) \<and> deref w2 p = Some s' \<and>
      k s' = 4 \<and> count s' = 4 \<and> space_size s' = 1000 \<and> seed s' = 42 \<and>
      stored s' = [799, 217, 202, 85])"
proof -
  have bound: "unat (k ex_a) \<le> MAX_K * 10" by (simp add: ex_a_def MAX_K_def)
  have gb: "kmh_get_buffer ex_world (sizeof_kvalue_minhash_t + 4 * unat (count ex_a))
              = (Some (HeapBuf 16777220), ex_world\<lparr>heap_left := 4052, malloc_addr := 16777260\<rparr>)"
    by (simp add: kmh_get_buffer_def ex_world_def ex_a_def Let_def MAX_SERIALIZE_BUFFERS_def
          sizeof_kvalue_minhash_t_def sizeof_int_def)
  have buf: "fst (kmh_get_buffer ex_world (sizeof_kvalue_minhash_t + 4 * unat (count ex_a)))
               \<noteq> None"
    unfolding gb by simp
  have alloc: "fst (kmh_init (snd (kmh_get_buffer ex_world
                       (sizeof_kvalue_minhash_t + 4 * unat (count ex_a))))
                     (k ex_a) (space_size ex_a) (seed ex_a)) \<noteq> None"
    unfolding gb
    by (simp add: kmh_init_def ex_world_def ex_a_def MAX_K_def MAX_INSTANCES_def Let_def
          sizeof_kvalue_minhash_t_def sizeof_uint32_t_def)
  have f: "k ex_a = 4" "count ex_a = 4" "space_size ex_a = 1000" "seed ex_a = 42"
    "stored ex_a = [799, 217, 202, 85]"
    by (simp_all add: ex_a_def stored_def)
  from serialize_deserialize_roundtrip [OF ex_world_ok ex_sketch_inv(1) bound buf alloc]
  have "\<exists>sz b blob w1 p w2 s'.
      kmh_serialize ex_world ex_a = Some (Some (sz, b, blob), w1) \<and> unat sz = length blob \<and>
      kmh_deserialize w1 blob sz = Some (Some p, w2) \<and> deref w2 p = Some s' \<and>
      k s' = 4 \<and> count s' = 4 \<and> space_size s' = 1000 \<and> seed s' = 42 \<and>
      stored s' = [799, 217, 202, 85]"
    unfolding f .
  then show ?thesis using ex_world_ok ex_sketch_inv(1) bound by (intro conjI)
qed

text \<open>
  A blob of 28 bytes with \<^verbatim>\<open>count = 0\<close> is longer than a header without hashes, and
  \<^verbatim>\<open>kmh_deserialize\<close> returns a sketch for it where the claim has it fail.  In a world
  without storage the same blob is rejected: whether \<^verbatim>\<open>kmh_deserialize\<close> fails is not
  decided by the blob alone.
\<close>

theorem kmh_deserialize_counterexample:
  "length ex_blob_long = 28 \<and> rd32 ex_blob_long 0 = Some 4 \<and> rd32 ex_blob_long 4 = Some 0 \<and>
   kmh_deserialize ex_world ex_blob_long 28 \<noteq> None \<and>
   fst (the (kmh_deserialize ex_world ex_blob_long 28)) = Some (HeapBlock 4) \<and>
   map_option k (deref (snd (the (kmh_deserialize ex_world ex_blob_long 28))) (HeapBlock 4))
     = Some 4 \<and>
   map_option count (deref (snd (the (kmh_deserialize ex_world ex_blob_long 28))) (HeapBlock 4))
     = Some 0 \<and>
   kmh_deserialize ex_world_no_heap ex_blob_long 28 = Some (None, ex_world_no_heap)"
proof -
  have "length ex_blob_long = 28 \<and> rd32 ex_blob_long 0 = Some 4 \<and> rd32 ex_blob_long 4 = Some 0 \<and>
   kmh_deserialize ex_world ex_blob_long 28 \<noteq> None \<and>
   fst (the (kmh_deserialize ex_world ex_blob_long 28)) = Some (HeapBlock 4) \<and>
   map_option k (deref (snd (the (kmh_deserialize ex_world ex_blob_long 28))) (HeapBlock 4))
     = Some 4 \<and>
   map_option count (deref (snd (the (kmh_deserialize ex_world ex_blob_long 28))) (HeapBlock 4))
     = Some 0"
    by (simp add: kmh_deserialize_def ex_blob_long_def sizeof_kvalue_minhash_t_def
        sizeof_uint32_t_def rd32_def word_le32_def MAX_K_def kmh_init_def ex_world_def
        MAX_INSTANCES_def Let_def deref_def store_def)
  moreover have "kmh_deserialize ex_world_no_heap ex_blob_long 28
                   = Some (None, ex_world_no_heap)"
    by (simp add: kmh_deserialize_def ex_blob_long_def sizeof_kvalue_minhash_t_def
        sizeof_uint32_t_def rd32_def word_le32_def MAX_K_def kmh_init_def ex_world_no_heap_def
        ex_world_def MAX_INSTANCES_def Let_def)
  ultimately show ?thesis by (simp only: simp_thms)
qed

theorem kmh_deserialize_rejects_malformed_witness:
  "kmh_deserialize ex_world [1, 2, 3, 4] 4 = Some (None, ex_world) \<and>
   kmh_cardinality_from_serialized [1, 2, 3, 4] 4 = Some (Dbl (- 1)) \<and>
   kmh_deserialize ex_world ex_blob_overfull 32 = Some (None, ex_world) \<and>
   (\<exists>p w' s'. kmh_deserialize ex_world ex_blob_long 28 = Some (Some p, w') \<and>
      deref ex_world p = None \<and> deref w' p = Some s' \<and> k s' = 4 \<and> count s' = 0 \<and>
      space_size s' = 1000 \<and> seed s' = 42)"
proof -
  have l1: "length [1, 2, 3, 4 :: u8] < 2 ^ 32" by simp
  have l2: "length ex_blob_long < 2 ^ 32" by (simp add: ex_blob_long_def)
  have l3: "length ex_blob_overfull < 2 ^ 32" by (simp add: ex_blob_overfull_def)
  have s1: "length [1, 2, 3, 4 :: u8] < 16" by simp
  have s2: "16 \<le> length ex_blob_long" by (simp add: ex_blob_long_def)
  have s3: "16 \<le> length ex_blob_overfull" by (simp add: ex_blob_overfull_def)
  have n1: "(of_nat (length [1, 2, 3, 4 :: u8]) :: u32) = 4" by simp
  have n2: "(of_nat (length ex_blob_long) :: u32) = 28" by (simp add: ex_blob_long_def)
  have n3: "(of_nat (length ex_blob_overfull) :: u32) = 32" by (simp add: ex_blob_overfull_def)
  have h2: "rd32 ex_blob_long 0 = Some 4" "rd32 ex_blob_long 4 = Some 0"
    "rd32 ex_blob_long 8 = Some 1000" "rd32 ex_blob_long 12 = Some 42"
    by (simp_all add: rd32_def word_le32_def ex_blob_long_def)
  have h3: "rd32 ex_blob_overfull 0 = Some 1" "rd32 ex_blob_overfull 4 = Some 2"
    by (simp_all add: rd32_def word_le32_def ex_blob_overfull_def)
  have g2: "(0 :: u32) \<le> 4 \<and> unat (4 :: u32) \<le> MAX_K * 10
             \<and> 24 + 4 * unat (0 :: u32) \<le> length ex_blob_long
             \<and> fst (kmh_init ex_world 4 1000 42) \<noteq> None"
    by (simp add: MAX_K_def ex_blob_long_def kmh_init_def ex_world_def MAX_INSTANCES_def Let_def
          sizeof_kvalue_minhash_t_def sizeof_uint32_t_def)
  from kmh_deserialize_rejects_malformed [OF ex_world_ok l1] s1
  have a1: "kmh_deserialize ex_world [1, 2, 3, 4] 4 = Some (None, ex_world)"
    and a2: "kmh_cardinality_from_serialized [1, 2, 3, 4] 4 = Some (Dbl (- 1))"
    unfolding n1 by blast+
  note t3 = kmh_deserialize_rejects_malformed
                 [OF ex_world_ok l3, unfolded n3, THEN conjunct2, THEN mp, OF s3]
  from t3 obtain kk cnt sp sd where
    r3: "rd32 ex_blob_overfull 0 = Some kk" "rd32 ex_blob_overfull 4 = Some cnt"
      "kk < cnt \<or> MAX_K * 10 < unat kk \<or> length ex_blob_overfull < 16 + 4 * unat cnt
         \<or> fst (kmh_init ex_world kk sp sd) = None \<longrightarrow>
       kmh_deserialize ex_world ex_blob_overfull 32 = Some (None, ex_world)"
    by (elim exE conjE) (rule that)
  have "kk = 1" "cnt = 2" using r3(1,2) h3 by simp_all
  then have "kk < cnt" by simp
  then have a3: "kmh_deserialize ex_world ex_blob_overfull 32 = Some (None, ex_world)"
    using r3(3) by blast
  note t2 = kmh_deserialize_rejects_malformed
                 [OF ex_world_ok l2, unfolded n2, THEN conjunct2, THEN mp, OF s2]
  from t2 obtain kk cnt sp sd where
    r2: "rd32 ex_blob_long 0 = Some kk" "rd32 ex_blob_long 4 = Some cnt"
      "rd32 ex_blob_long 8 = Some sp" "rd32 ex_blob_long 12 = Some sd"
      "cnt \<le> kk \<and> unat kk \<le> MAX_K * 10 \<and> 24 + 4 * unat cnt \<le> length ex_blob_long
          \<and> fst (kmh_init ex_world kk sp sd) \<noteq> None \<longrightarrow>
       (\<exists>p w' s'.
           kmh_deserialize ex_world ex_blob_long 28 = Some (Some p, w') \<and>
           deref ex_world p = None \<and> deref w' p = Some s' \<and> k s' = kk \<and> count s' = cnt \<and>
           space_size s' = sp \<and> seed s' = sd)"
    by (elim exE conjE) (rule that)
  have e: "kk = 4" "cnt = 0" "sp = 1000" "sd = 42" using r2(1-4) h2 by simp_all
  have a4: "\<exists>p w' s'. kmh_deserialize ex_world ex_blob_long 28 = Some (Some p, w') \<and>
      deref ex_world p = None \<and> deref w' p = Some s' \<and> k s' = 4 \<and> count s' = 0 \<and>
      space_size s' = 1000 \<and> seed s' = 42"
    using r2(5) g2 unfolding e by blast
  show ?thesis using a1 a2 a3 a4 by (intro conjI)
qed

end
